theory Spec2Isabelle
  imports Complex_Main "HOL-Library.Sublist" "HOL-Library.Multiset" "HOL-Library.AList"
begin

section \<open>Arrays, variables and the dataset that holds the mesh\<close>

text \<open>
  The mesh of \<^verbatim>\<open>voronoi_to_graph.py\<close> is one \<^verbatim>\<open>xarray.Dataset\<close>: a dictionary, in
  insertion order, from names to arrays that carry the names of their dimensions.
  Integer arrays are one- or two-dimensional; the only floating-point arrays are the
  coordinates, which the code selects by mask and never computes with.
\<close>

datatype error = KeyError | IndexError | ValueError | AttributeError | AxisError

text \<open>A raised exception ends the computation: the rest runs on a returned value only.\<close>

definition ebind :: "error + 'a \<Rightarrow> ('a \<Rightarrow> error + 'b) \<Rightarrow> error + 'b" where
  "ebind m f = (case m of Inl e \<Rightarrow> Inl e | Inr x \<Rightarrow> f x)"

datatype ndarray =
    Floats "real list"
  | Ints1 "int list"
  | Ints2 nat "int list list"  \<comment> \<open>number of columns, rows\<close>

record variable =
  dims :: "string list"
  vals :: ndarray

record data_array =
  da_dims :: "string list"
  da_vals :: ndarray
  da_coords :: "(string \<times> variable) list"

record dataset =
  coords :: "string list"
  variables :: "(string \<times> variable) list"

fun shape :: "ndarray \<Rightarrow> nat list" where
  "shape (Floats xs) = [length xs]"
| "shape (Ints1 xs) = [length xs]"
| "shape (Ints2 w rows) = [length rows, w]"

text \<open>\<^verbatim>\<open>len(a)\<close>: the size of the first axis.\<close>

fun len :: "ndarray \<Rightarrow> nat" where
  "len (Floats xs) = length xs"
| "len (Ints1 xs) = length xs"
| "len (Ints2 w rows) = length rows"

text \<open>\<^verbatim>\<open>a[mask]\<close> with a boolean mask: the entries (rows) where the mask is true, in
  order. NumPy raises IndexError when the mask's length is not the size of the first axis.\<close>

definition compress :: "bool list \<Rightarrow> 'a list \<Rightarrow> 'a list" where
  "compress keep xs = map snd (filter fst (zip keep xs))"

fun compress_rows :: "bool list \<Rightarrow> ndarray \<Rightarrow> ndarray" where
  "compress_rows keep (Floats xs) = Floats (compress keep xs)"
| "compress_rows keep (Ints1 xs) = Ints1 (compress keep xs)"
| "compress_rows keep (Ints2 w rows) = Ints2 w (compress keep rows)"

definition mask_rows :: "bool list \<Rightarrow> ndarray \<Rightarrow> error + ndarray" where
  "mask_rows keep a =
     (if length keep = len a then Inr (compress_rows keep a) else Inl IndexError)"

text \<open>An operation on every entry of the flattened view \<^verbatim>\<open>a.reshape((-1,))\<close>, written in
  place. On the coordinates (which no name pattern of the mesh selects) the same
  comparisons and subtraction are taken in the reals.\<close>

fun map_entries :: "(int \<Rightarrow> int) \<Rightarrow> (real \<Rightarrow> real) \<Rightarrow> ndarray \<Rightarrow> ndarray" where
  "map_entries f g (Floats xs) = Floats (map g xs)"
| "map_entries f g (Ints1 xs) = Ints1 (map f xs)"
| "map_entries f g (Ints2 w rows) = Ints2 w (map (map f) rows)"

subsection \<open>The dataset operations the code uses\<close>

definition var_dim_sizes :: "variable \<Rightarrow> (string \<times> nat) list" where
  "var_dim_sizes v = zip (dims v) (shape (vals v))"

definition dim_sizes :: "dataset \<Rightarrow> (string \<times> nat) list" where
  "dim_sizes ds = concat (map (\<lambda>(name, v). var_dim_sizes v) (variables ds))"

text \<open>\<^verbatim>\<open>ds.dims[d]\<close>; None stands for the KeyError of a dimension no variable has.\<close>

definition ds_dims :: "dataset \<Rightarrow> string \<Rightarrow> nat option" where
  "ds_dims ds d = map_of (dim_sizes ds) d"

text \<open>A dataset is consistent when every variable has as many dimension names as axes
  and no two variables disagree on the size of a dimension. xarray raises ValueError
  instead of building a dataset that is not.\<close>

definition consistent :: "dataset \<Rightarrow> bool" where
  "consistent ds \<longleftrightarrow>
     list_all (\<lambda>(name, v). length (dims v) = length (shape (vals v))) (variables ds) \<and>
     list_all (\<lambda>(d, n). list_all (\<lambda>(d', n'). d = d' \<longrightarrow> n = n') (dim_sizes ds)) (dim_sizes ds)"

text \<open>\<^verbatim>\<open>ds[name].values\<close>.\<close>

definition ds_get :: "dataset \<Rightarrow> string \<Rightarrow> error + ndarray" where
  "ds_get ds name = (case map_of (variables ds) name of None \<Rightarrow> Inl KeyError | Some v \<Rightarrow> Inr (vals v))"

text \<open>\<^verbatim>\<open>ds.drop(names)\<close>, for names the dataset has.\<close>

definition ds_drop :: "string list \<Rightarrow> dataset \<Rightarrow> dataset" where
  "ds_drop names ds =
     \<lparr>coords = filter (\<lambda>c. c \<notin> set names) (coords ds),
      variables = filter (\<lambda>(name, v). name \<notin> set names) (variables ds)\<rparr>"

text \<open>\<^verbatim>\<open>ds.update(d)\<close> for a dictionary of data arrays: each array comes with its
  coordinates; an array named as its only dimension is itself a coordinate. A name the
  dataset has is replaced where it stands, a new one goes to the end.\<close>

fun da_entries :: "string \<times> data_array \<Rightarrow> (string \<times> variable) list" where
  "da_entries (name, da) = da_coords da @ [(name, \<lparr>dims = da_dims da, vals = da_vals da\<rparr>)]"

fun da_coord_names :: "string \<times> data_array \<Rightarrow> string list" where
  "da_coord_names (name, da) =
     map fst (da_coords da) @ (if da_dims da = [name] then [name] else [])"

definition ds_update :: "(string \<times> data_array) list \<Rightarrow> dataset \<Rightarrow> error + dataset" where
  "ds_update d ds =
     (let ds' = \<lparr>coords = remdups (coords ds @ concat (map da_coord_names d)),
                 variables = foldl (\<lambda>al (k, v). AList.update k v al) (variables ds)
                                   (concat (map da_entries d))\<rparr>
      in if consistent ds' then Inr ds' else Inl ValueError)"

section \<open>The element kinds and the name patterns of \<^verbatim>\<open>drop_element\<close>\<close>

datatype kind = Node | Corner | Link | Face | Patch | Cell

fun kind_name :: "kind \<Rightarrow> string" where
  "kind_name Node = ''node''"
| "kind_name Corner = ''corner''"
| "kind_name Link = ''link''"
| "kind_name Face = ''face''"
| "kind_name Patch = ''patch''"
| "kind_name Cell = ''cell''"

text \<open>\<^verbatim>\<open>re.compile("^{at}(es)?_at_")\<close> for patch, \<^verbatim>\<open>re.compile("^{at}(s)?_at_")\<close> otherwise,
  and \<^verbatim>\<open>re.compile("at_{at}$")\<close>, each used with \<^verbatim>\<open>search\<close>.\<close>

definition prefix_search :: "kind \<Rightarrow> string \<Rightarrow> bool" where
  "prefix_search knd name =
     (if knd = Patch
      then prefix (kind_name knd @ ''_at_'') name \<or> prefix (kind_name knd @ ''es_at_'') name
      else prefix (kind_name knd @ ''_at_'') name \<or> prefix (kind_name knd @ ''s_at_'') name)"

definition suffix_search :: "kind \<Rightarrow> string \<Rightarrow> bool" where
  "suffix_search knd name = suffix (''at_'' @ kind_name knd) name"

section \<open>\<^verbatim>\<open>VoronoiDelaunayToGraph.drop_element\<close>\<close>

text \<open>An index into an axis of size \<open>n\<close>: NumPy counts a negative index from the end and
  raises IndexError outside \<open>-n..n-1\<close>.\<close>

definition np_index :: "nat \<Rightarrow> int \<Rightarrow> nat option" where
  "np_index n i =
     (if 0 \<le> i \<and> i < int n then Some (nat i)
      else if - int n \<le> i \<and> i < 0 then Some (nat (i + int n))
      else None)"

text \<open>\<^verbatim>\<open>is_a_keeper[dropped_ids] = False\<close>.\<close>

fun set_false :: "bool list \<Rightarrow> int list \<Rightarrow> error + bool list" where
  "set_false keep [] = Inr keep"
| "set_false keep (i # ids) =
     (case np_index (length keep) i of
        None \<Rightarrow> Inl IndexError
      | Some j \<Rightarrow> set_false (keep[j := False]) ids)"

text \<open>The renumbering of one entry: \<^verbatim>\<open>array[np.in1d(array, dropped_ids)] = -1\<close>, then
  \<^verbatim>\<open>for id_ in dropped_ids[::-1]: array[array > id_] -= 1\<close>. Each pass of the loop acts on
  every entry by itself, so the loop over the ids is run per entry.\<close>

fun shift_down :: "int list \<Rightarrow> 'a::linordered_idom \<Rightarrow> 'a" where
  "shift_down [] x = x"
| "shift_down (i # ids) x = shift_down ids (if x > of_int i then x - 1 else x)"

definition renumber :: "int list \<Rightarrow> 'a::linordered_idom \<Rightarrow> 'a" where
  "renumber dropped_ids x =
     shift_down (rev dropped_ids) (if x \<in> set (map of_int dropped_ids) then - 1 else x)"

text \<open>The first loop over the variables: every variable whose name ends in
  \<^verbatim>\<open>at_<kind>\<close> is cut down to the kept rows and collected in the dictionary \<^verbatim>\<open>at_\<close>.\<close>

fun collect_rows :: "kind \<Rightarrow> bool list \<Rightarrow> (string \<times> variable) list
    \<Rightarrow> error + (string \<times> data_array) list" where
  "collect_rows knd is_a_keeper [] = Inr []"
| "collect_rows knd is_a_keeper ((name, var) # rest) =
     (if suffix_search knd name then
        ebind (mask_rows is_a_keeper (vals var)) (\<lambda>a.
        ebind (collect_rows knd is_a_keeper rest) (\<lambda>d.
          Inr ((name, \<lparr>da_dims = dims var, da_vals = a, da_coords = []\<rparr>) # d)))
      else collect_rows knd is_a_keeper rest)"

text \<open>The part under \<^verbatim>\<open>if at in self._mesh.coords\<close>: the coordinates of the kept elements
  and the new identity array \<^verbatim>\<open>np.arange(len(x))\<close>; the old coordinates leave the mesh.\<close>

definition drop_coords :: "kind \<Rightarrow> bool list \<Rightarrow> dataset
    \<Rightarrow> error + (string \<times> data_array) list \<times> dataset" where
  "drop_coords knd is_a_keeper ds =
     (if kind_name knd \<in> set (coords ds) then
        ebind (ds_get ds (''x_of_'' @ kind_name knd)) (\<lambda>xa.
        ebind (mask_rows is_a_keeper xa) (\<lambda>x.
        ebind (ds_get ds (''y_of_'' @ kind_name knd)) (\<lambda>ya.
        ebind (mask_rows is_a_keeper ya) (\<lambda>y.
          Inr ([(kind_name knd,
                 \<lparr>da_dims = [kind_name knd],
                  da_vals = Ints1 (map int [0..<len x]),
                  da_coords = [(''x_of_'' @ kind_name knd, \<lparr>dims = [kind_name knd], vals = x\<rparr>),
                               (''y_of_'' @ kind_name knd, \<lparr>dims = [kind_name knd], vals = y\<rparr>)]\<rparr>)],
               ds_drop [''x_of_'' @ kind_name knd, ''y_of_'' @ kind_name knd] ds)))))
      else Inr ([], ds))"

text \<open>The second loop: every variable whose name starts with \<^verbatim>\<open><kind>_at_\<close> or its
  plural is renumbered in place.\<close>

definition renumber_vars :: "kind \<Rightarrow> int list \<Rightarrow> (string \<times> variable) list
    \<Rightarrow> (string \<times> variable) list" where
  "renumber_vars knd dropped_ids vs =
     map (\<lambda>(name, var).
            if prefix_search knd name
            then (name, var\<lparr>vals := map_entries (renumber dropped_ids) (renumber dropped_ids) (vals var)\<rparr>)
            else (name, var)) vs"

text \<open>The object: \<^verbatim>\<open>self._mesh\<close> and the attribute \<^verbatim>\<open>self._perimeter_links\<close>, which
  is missing (None here) until it is assigned, and then holds None or an array of pairs.\<close>

datatype pyval = PyNone | Array "int list list"

record graph =
  mesh :: dataset
  perimeter_links :: "pyval option"

definition drop_element :: "int list \<Rightarrow> kind \<Rightarrow> graph \<Rightarrow> error + graph" where
  "drop_element ids knd self =
     (let dropped_ids = sort ids in
      case ds_dims (mesh self) (kind_name knd) of
        None \<Rightarrow> Inl KeyError
      | Some n \<Rightarrow>
          ebind (set_false (replicate n True) dropped_ids) (\<lambda>is_a_keeper.
          ebind (drop_coords knd is_a_keeper (mesh self)) (\<lambda>(at_0, mesh1).
          ebind (collect_rows knd is_a_keeper (variables mesh1)) (\<lambda>at_1.
          ebind (ds_update (at_0 @ at_1) (ds_drop (map fst (at_0 @ at_1)) mesh1)) (\<lambda>mesh2.
            Inr (self\<lparr>mesh := mesh2\<lparr>variables :=
                   renumber_vars knd dropped_ids (variables mesh2)\<rparr>\<rparr>))))))"

section \<open>Reading the arrays\<close>

text \<open>The integer arrays are read through the properties of the class
  (\<^verbatim>\<open>self._mesh[name].values\<close>). An operation along \<^verbatim>\<open>axis=1\<close>, or an index
  \<^verbatim>\<open>[:, 0]\<close>, needs a two-dimensional array; NumPy raises AxisError (IndexError for the
  index) on any other.\<close>

definition get_ints2 :: "dataset \<Rightarrow> string \<Rightarrow> error + int list list" where
  "get_ints2 ds name =
     ebind (ds_get ds name) (\<lambda>a. case a of Ints2 w rows \<Rightarrow> Inr rows | _ \<Rightarrow> Inl AxisError)"

definition get_ints :: "dataset \<Rightarrow> string \<Rightarrow> error + int list" where
  "get_ints ds name =
     ebind (ds_get ds name) (\<lambda>a. case a of Ints1 xs \<Rightarrow> Inr xs | _ \<Rightarrow> Inl ValueError)"

text \<open>\<^verbatim>\<open>np.where(b)[0]\<close>: the indices where a boolean array is true, ascending.\<close>

definition where_true :: "bool list \<Rightarrow> int list" where
  "where_true b = map int (filter (\<lambda>i. b ! i) [0..<length b])"

text \<open>\<^verbatim>\<open>a[idx]\<close> for an array of indices: the rows at these indices, in their order.\<close>

fun take_rows :: "int list \<Rightarrow> 'a list \<Rightarrow> error + 'a list" where
  "take_rows [] rows = Inr []"
| "take_rows (i # idx) rows =
     (case np_index (length rows) i of
        None \<Rightarrow> Inl IndexError
      | Some j \<Rightarrow> ebind (take_rows idx rows) (\<lambda>rest. Inr (rows ! j # rest)))"

text \<open>An operation on two one-dimensional arrays, entry by entry: the shapes must be
  equal, or one of the arrays has a single entry, which is then used throughout.\<close>

definition broadcast2 :: "('a \<Rightarrow> 'b \<Rightarrow> 'c) \<Rightarrow> 'a list \<Rightarrow> 'b list \<Rightarrow> error + 'c list" where
  "broadcast2 f xs ys =
     (if length xs = length ys then Inr (map2 f xs ys)
      else if length xs = 1 then Inr (map (f (hd xs)) ys)
      else if length ys = 1 then Inr (map (\<lambda>x. f x (hd ys)) xs)
      else Inl ValueError)"

section \<open>Code of the repository that the three source files call\<close>

text \<open>Modelled from the spec: \<^verbatim>\<open>landlab.utils.jaggedarray\<close> (\<^verbatim>\<open>JaggedArray\<close> and
  \<^verbatim>\<open>unravel\<close>) is missing. The spec (4.1) has it store the rows as a flat buffer with
  an offset table and return a dense matrix of one row per sequence and as many columns
  as the longest row, each row's entries at positions \<open>0..len-1\<close> in their order and
  the pad value after them.\<close>

definition jagged_array :: "int list list \<Rightarrow> int list" where
  "jagged_array rows = concat rows"

fun jagged_offset :: "nat \<Rightarrow> int list list \<Rightarrow> nat list" where
  "jagged_offset start [] = [start]"
| "jagged_offset start (r # rows) = start # jagged_offset (start + length r) rows"

definition diff :: "nat list \<Rightarrow> nat list" where
  "diff offset = map (\<lambda>i. offset ! Suc i - offset ! i) [0..<length offset - 1]"

definition unravel :: "int list \<Rightarrow> nat list \<Rightarrow> int \<Rightarrow> ndarray" where
  "unravel data offset pad =
     (let n_cols = foldr max (diff offset) 0
      in Ints2 n_cols
           (map (\<lambda>i. let row = take (offset ! Suc i - offset ! i) (drop (offset ! i) data)
                      in row @ replicate (n_cols - length row) pad)
                [0..<length offset - 1]))"

text \<open>Modelled from the spec: \<^verbatim>\<open>landlab.graph.sort.sort.reverse_one_to_one\<close> is missing.
  The spec (4.3, step 2) has it return the exact inverse of a one-to-one array of ids:
  entry \<open>c\<close> of the result is the index at which the input holds \<open>c\<close>. The result here
  reaches up to the largest id of the input, and an id the input does not hold gets
  the sentinel.\<close>

definition reverse_one_to_one :: "int list \<Rightarrow> int list" where
  "reverse_one_to_one ids =
     map (\<lambda>c. case filter (\<lambda>n. ids ! n = int c) [0..<length ids] of
                 [] \<Rightarrow> - 1
               | n # _ \<Rightarrow> int n)
         [0..<nat (foldr max ids (- 1) + 1)]"

text \<open>Modelled from the spec: \<^verbatim>\<open>landlab.graph.voronoi.voronoi.id_array_contains\<close> is
  missing. The spec (3) keeps the true length of each padded row in a parallel count
  array and calls a cell a perimeter cell if it lists a sentinel corner: the result is
  true for a row when the value is among the row's first \<open>n\<close> entries, \<open>n\<close> its count.\<close>

definition id_array_contains :: "int list list \<Rightarrow> int list \<Rightarrow> int \<Rightarrow> error + bool list" where
  "id_array_contains rows n_per_row bad_val =
     (if length rows = length n_per_row
      then Inr (map2 (\<lambda>row n. list_ex (\<lambda>v. v = bad_val) (take (nat n) row)) rows n_per_row)
      else Inl ValueError)"

text \<open>The other collaborators are taken as they come: \<^verbatim>\<open>np.argsort\<close> (whose order among
  equal keys is not fixed), \<^verbatim>\<open>map_sorted_rolling_pairs\<close> and \<^verbatim>\<open>pair_isin_sorted_list\<close> of
  \<^verbatim>\<open>landlab.graph.sort.sort\<close>, and the output of \<^verbatim>\<open>scipy.spatial\<close>'s \<^verbatim>\<open>Voronoi\<close> and
  \<^verbatim>\<open>Delaunay\<close>.\<close>

record externals =
  argsort :: "int list \<Rightarrow> int list"
  map_sorted_rolling_pairs :: "int list list \<Rightarrow> int list \<Rightarrow> int list list \<Rightarrow> ndarray"
  pair_isin_sorted_list :: "int list list \<Rightarrow> int list list \<Rightarrow> int list \<Rightarrow> bool list"

record qhull =
  points :: "(real \<times> real) list"
  vertices :: "(real \<times> real) list"
  ridge_points :: "int list list"
  ridge_vertices :: "int list list"
  regions :: "int list list"
  point_region :: "int list"
  simplices :: "int list list"

section \<open>\<^verbatim>\<open>VoronoiDelaunay\<close>\<close>

definition corners_at_cell_of :: "int list list \<Rightarrow> ndarray" where
  "corners_at_cell_of rs = unravel (jagged_array rs) (jagged_offset 0 rs) (- 1)"

definition plain :: "string list \<Rightarrow> ndarray \<Rightarrow> data_array" where
  "plain ds a = \<lparr>da_dims = ds, da_vals = a, da_coords = []\<rparr>"

definition with_xy :: "string \<Rightarrow> (real \<times> real) list \<Rightarrow> string \<times> data_array" where
  "with_xy name xy =
     (name, \<lparr>da_dims = [name], da_vals = Ints1 (map int [0..<length xy]),
             da_coords = [(''x_of_'' @ name, \<lparr>dims = [name], vals = Floats (map fst xy)\<rparr>),
                          (''y_of_'' @ name, \<lparr>dims = [name], vals = Floats (map snd xy)\<rparr>)]\<rparr>)"

definition VoronoiDelaunay_init :: "qhull \<Rightarrow> error + dataset" where
  "VoronoiDelaunay_init q =
     ebind (ds_update [with_xy ''node'' (points q), with_xy ''corner'' (vertices q)]
              \<lparr>coords = [], variables = []\<rparr>) (\<lambda>mesh.
     ds_update
       [(''nodes_at_link'', plain [''link'', ''Two''] (Ints2 2 (ridge_points q))),
        (''nodes_at_patch'', plain [''patch'', ''Three''] (Ints2 3 (simplices q))),
        (''corners_at_face'', plain [''face'', ''Two''] (Ints2 2 (ridge_vertices q))),
        (''corners_at_cell'', plain [''cell'', ''max_corners_per_cell'']
                                (corners_at_cell_of (regions q))),
        (''n_corners_at_cell'', plain [''cell''] (Ints1 (map (\<lambda>cell. int (length cell)) (regions q)))),
        (''nodes_at_face'', plain [''face'', ''Two''] (Ints2 2 (ridge_points q))),
        (''cell_at_node'', plain [''node''] (Ints1 (point_region q)))]
       mesh)"

section \<open>\<^verbatim>\<open>VoronoiDelaunayToGraph\<close>\<close>

definition links_at_patch_of :: "externals \<Rightarrow> int list list \<Rightarrow> int list list \<Rightarrow> error + ndarray" where
  "links_at_patch_of ext nodes_at_link nodes_at_patch =
     (if list_ex (\<lambda>row. row = []) nodes_at_link then Inl IndexError
      else
        (let link_at_nodes = argsort ext (map hd nodes_at_link)
         in ebind (take_rows link_at_nodes nodes_at_link) (\<lambda>sorted_pairs.
              Inr (map_sorted_rolling_pairs ext sorted_pairs link_at_nodes nodes_at_patch))))"

definition is_perimeter_face :: "graph \<Rightarrow> error + bool list" where
  "is_perimeter_face self =
     ebind (get_ints2 (mesh self) ''corners_at_face'') (\<lambda>corners_at_face.
       Inr (map (list_ex (\<lambda>v. v = - 1)) corners_at_face))"

definition is_perimeter_cell :: "graph \<Rightarrow> error + bool list" where
  "is_perimeter_cell self =
     ebind (get_ints2 (mesh self) ''corners_at_cell'') (\<lambda>corners_at_cell.
     ebind (get_ints (mesh self) ''n_corners_at_cell'') (\<lambda>n_corners_at_cell.
     ebind (id_array_contains corners_at_cell n_corners_at_cell (- 1)) (\<lambda>is_not_a_cell.
       broadcast2 (\<or>) is_not_a_cell (map (\<lambda>n. n < 3) n_corners_at_cell))))"

definition is_perimeter_link :: "externals \<Rightarrow> graph \<Rightarrow> error + bool list" where
  "is_perimeter_link ext self =
     (case perimeter_links self of
        None \<Rightarrow> Inl AttributeError
      | Some PyNone \<Rightarrow> is_perimeter_face self
      | Some (Array pl) \<Rightarrow>
          ebind (get_ints2 (mesh self) ''nodes_at_link'') (\<lambda>nodes_at_link.
            if list_ex (\<lambda>row. row = []) pl then Inl IndexError
            else Inr (pair_isin_sorted_list ext pl nodes_at_link (argsort ext (map hd pl)))))"

definition unbound_corners :: "externals \<Rightarrow> graph \<Rightarrow> error + int list" where
  "unbound_corners ext self =
     ebind (is_perimeter_face self) (\<lambda>is_face.
     ebind (is_perimeter_link ext self) (\<lambda>is_link.
     ebind (broadcast2 (\<noteq>) is_link is_face) (\<lambda>differs.
     ebind (broadcast2 (\<and>) is_face differs) (\<lambda>drop.
     ebind (get_ints2 (mesh self) ''corners_at_face'') (\<lambda>corners_at_face.
     ebind (take_rows (where_true drop) corners_at_face) (\<lambda>rows.
       Inr (filter (\<lambda>c. c \<ge> 0) (concat rows))))))))"

definition drop_corners :: "int list \<Rightarrow> graph \<Rightarrow> error + graph" where
  "drop_corners corners self =
     ebind (drop_element corners Corner self) (\<lambda>self.
     ebind (get_ints2 (mesh self) ''corners_at_face'') (\<lambda>corners_at_face.
     let is_a_link = map (list_ex (\<lambda>v. v \<noteq> - 1)) corners_at_face in
     ebind (drop_element (where_true (map Not is_a_link)) Link self) (\<lambda>self.
     ebind (get_ints2 (mesh self) ''links_at_patch'') (\<lambda>links_at_patch.
     let is_a_patch = map (list_all (\<lambda>v. v \<ge> 0)) links_at_patch in
     drop_element (where_true (map Not is_a_patch)) Patch self))))"

definition drop_perimeter_faces :: "graph \<Rightarrow> error + graph" where
  "drop_perimeter_faces self =
     ebind (is_perimeter_face self) (\<lambda>b. drop_element (where_true b) Face self)"

definition drop_perimeter_cells :: "graph \<Rightarrow> error + graph" where
  "drop_perimeter_cells self =
     ebind (is_perimeter_cell self) (\<lambda>b. drop_element (where_true b) Cell self)"

text \<open>\<^verbatim>\<open>__init__\<close>, in two parts: the arrays derived from the output of the primitive
  (lines 136 to 166), and the three drops that follow (lines 167 to 169).\<close>

definition derived_mesh :: "externals \<Rightarrow> qhull \<Rightarrow> error + dataset" where
  "derived_mesh ext q =
     ebind (VoronoiDelaunay_init q) (\<lambda>mesh0.
     ebind (get_ints2 mesh0 ''nodes_at_link'') (\<lambda>nodes_at_link.
     ebind (get_ints2 mesh0 ''nodes_at_patch'') (\<lambda>nodes_at_patch.
     ebind (links_at_patch_of ext nodes_at_link nodes_at_patch) (\<lambda>links_at_patch.
     ebind (get_ints mesh0 ''cell_at_node'') (\<lambda>cell_at_node.
     ebind (ds_update
              [(''links_at_patch'', plain [''patch'', ''Three''] links_at_patch),
               (''node_at_cell'', plain [''cell''] (Ints1 (reverse_one_to_one cell_at_node)))]
              mesh0) (\<lambda>mesh1.
     ebind (get_ints2 mesh1 ''corners_at_face'') (\<lambda>corners_at_face.
     ebind (get_ints2 mesh1 ''corners_at_cell'') (\<lambda>corners_at_cell.
     ebind (links_at_patch_of ext corners_at_face corners_at_cell) (\<lambda>faces_at_cell.
     ds_update
       [(''faces_at_cell'', plain [''cell'', ''max_faces_per_cell''] faces_at_cell)]
       mesh1)))))))))"

definition reduction :: "externals \<Rightarrow> graph \<Rightarrow> error + graph" where
  "reduction ext self =
     ebind (unbound_corners ext self) (\<lambda>corners.
     ebind (drop_corners corners self) (\<lambda>self.
     ebind (drop_perimeter_faces self) (\<lambda>self.
     drop_perimeter_cells self)))"

definition VoronoiDelaunayToGraph_init ::
    "externals \<Rightarrow> qhull \<Rightarrow> (int \<times> int) list option \<Rightarrow> error + graph" where
  "VoronoiDelaunayToGraph_init ext q perimeter_links_arg =
     ebind (derived_mesh ext q) (\<lambda>mesh2.
     reduction ext
       \<lparr>mesh = mesh2,
        perimeter_links = (case perimeter_links_arg of
                             None \<Rightarrow> None
                           | Some pl \<Rightarrow> Some (Array (map (\<lambda>(a, b). [a, b]) pl)))\<rparr>)"

section \<open>A worked example\<close>

text \<open>Five points, the corners of a square and its centre: four triangles around
  the centre, four Voronoi vertices, eight ridges of which the four on the hull are
  unbounded, and six regions, one of them empty, as \<^verbatim>\<open>scipy.spatial\<close> lists them.\<close>

definition example_qhull :: qhull where
  "example_qhull =
     \<lparr>points = [(0, 0), (2, 0), (2, 2), (0, 2), (1, 1)],
      vertices = [(1, 0), (2, 1), (1, 2), (0, 1)],
      ridge_points = [[0, 1], [1, 2], [2, 3], [3, 0], [0, 4], [1, 4], [2, 4], [3, 4]],
      ridge_vertices = [[- 1, 0], [- 1, 1], [- 1, 2], [- 1, 3], [0, 3], [0, 1], [1, 2], [2, 3]],
      regions = [[], [- 1, 0, 3], [- 1, 0, 1], [0, 1, 2, 3], [- 1, 1, 2], [- 1, 2, 3]],
      point_region = [1, 2, 4, 5, 3],
      simplices = [[0, 1, 4], [1, 2, 4], [2, 3, 4], [3, 0, 4]]\<rparr>"

text \<open>Stand-ins for the collaborators, for the example only: a stable argsort, the
  lookup of each rolling pair of a row among the pairs (the sentinel where there is
  none), and the membership of a pair, in either order, in a list of pairs.\<close>

definition find_pair :: "int list list \<Rightarrow> int list \<Rightarrow> int \<Rightarrow> int \<Rightarrow> int" where
  "find_pair sorted_pairs sorted_ids a b =
     (case filter (\<lambda>(p, i). p = [a, b] \<or> p = [b, a]) (zip sorted_pairs sorted_ids) of
        [] \<Rightarrow> - 1
      | (p, i) # _ \<Rightarrow> i)"

definition example_externals :: externals where
  "example_externals =
     \<lparr>argsort = (\<lambda>xs. map int (sort_key (\<lambda>i. xs ! i) [0..<length xs])),
      map_sorted_rolling_pairs = (\<lambda>sorted_pairs sorted_ids pairs.
         Ints2 (case pairs of [] \<Rightarrow> 0 | row # _ \<Rightarrow> length row)
           (map (\<lambda>row. map (\<lambda>k. find_pair sorted_pairs sorted_ids
                                     (row ! k) (row ! (Suc k mod length row)))
                             [0..<length row]) pairs)),
      pair_isin_sorted_list = (\<lambda>src pairs sorter.
         map (\<lambda>p. list_ex (\<lambda>s. s = p \<or> s = rev p) src) pairs)\<rparr>"

text \<open>The mesh of the example before anything is dropped.\<close>

definition example_mesh :: dataset where
  "example_mesh =
     \<lparr>coords = [''x_of_node'', ''y_of_node'', ''node'', ''x_of_corner'', ''y_of_corner'', ''corner''],
      variables =
        [(''x_of_node'', \<lparr>dims = [''node''], vals = Floats [0, 2, 2, 0, 1]\<rparr>),
         (''y_of_node'', \<lparr>dims = [''node''], vals = Floats [0, 0, 2, 2, 1]\<rparr>),
         (''node'', \<lparr>dims = [''node''], vals = Ints1 [0, 1, 2, 3, 4]\<rparr>),
         (''x_of_corner'', \<lparr>dims = [''corner''], vals = Floats [1, 2, 1, 0]\<rparr>),
         (''y_of_corner'', \<lparr>dims = [''corner''], vals = Floats [0, 1, 2, 1]\<rparr>),
         (''corner'', \<lparr>dims = [''corner''], vals = Ints1 [0, 1, 2, 3]\<rparr>),
         (''nodes_at_link'', \<lparr>dims = [''link'', ''Two''],
            vals = Ints2 2 [[0, 1], [1, 2], [2, 3], [3, 0], [0, 4], [1, 4], [2, 4], [3, 4]]\<rparr>),
         (''nodes_at_patch'', \<lparr>dims = [''patch'', ''Three''],
            vals = Ints2 3 [[0, 1, 4], [1, 2, 4], [2, 3, 4], [3, 0, 4]]\<rparr>),
         (''corners_at_face'', \<lparr>dims = [''face'', ''Two''],
            vals = Ints2 2 [[- 1, 0], [- 1, 1], [- 1, 2], [- 1, 3], [0, 3], [0, 1], [1, 2], [2, 3]]\<rparr>),
         (''corners_at_cell'', \<lparr>dims = [''cell'', ''max_corners_per_cell''],
            vals = Ints2 4 [[- 1, - 1, - 1, - 1], [- 1, 0, 3, - 1], [- 1, 0, 1, - 1],
                            [0, 1, 2, 3], [- 1, 1, 2, - 1], [- 1, 2, 3, - 1]]\<rparr>),
         (''n_corners_at_cell'', \<lparr>dims = [''cell''], vals = Ints1 [0, 3, 3, 4, 3, 3]\<rparr>),
         (''nodes_at_face'', \<lparr>dims = [''face'', ''Two''],
            vals = Ints2 2 [[0, 1], [1, 2], [2, 3], [3, 0], [0, 4], [1, 4], [2, 4], [3, 4]]\<rparr>),
         (''cell_at_node'', \<lparr>dims = [''node''], vals = Ints1 [1, 2, 4, 5, 3]\<rparr>),
         (''links_at_patch'', \<lparr>dims = [''patch'', ''Three''],
            vals = Ints2 3 [[0, 5, 4], [1, 6, 5], [2, 7, 6], [3, 4, 7]]\<rparr>),
         (''node_at_cell'', \<lparr>dims = [''cell''], vals = Ints1 [- 1, 0, 1, 4, 2, 3]\<rparr>),
         (''faces_at_cell'', \<lparr>dims = [''cell'', ''max_faces_per_cell''],
            vals = Ints2 4 [[- 1, - 1, - 1, - 1], [0, 4, 3, - 1], [0, 5, 1, - 1],
                            [5, 6, 7, 4], [1, 6, 2, - 1], [2, 7, 3, - 1]]\<rparr>)]\<rparr>"

definition example_graph :: graph where
  "example_graph =
     \<lparr>mesh = example_mesh,
      perimeter_links = Some (Array [[0, 1], [1, 2], [2, 3], [3, 0]])\<rparr>"

section \<open>The renumbering in the spec's words\<close>

text \<open>The spec (4.3, step 6b): any id present in \<open>ids\<close> becomes the sentinel; any
  surviving id \<open>i\<close> is decremented by the number of removed ids strictly less than \<open>i\<close>.\<close>

definition spec_renumber :: "int list \<Rightarrow> 'a::linordered_idom \<Rightarrow> 'a" where
  "spec_renumber ids x =
     (if x \<in> set (map of_int ids) then - 1
      else x - of_nat (length (filter (\<lambda>d. of_int d < x) (remdups ids))))"

section \<open>The mesh as the constructor leaves it\<close>

text \<open>The names and dimensions of the sixteen variables that \<^verbatim>\<open>__init__\<close> puts in the
  mesh, and the six coordinates among them.\<close>

definition schema :: "(string \<times> string list) list" where
  "schema =
     [(''x_of_node'', [''node'']), (''y_of_node'', [''node'']), (''node'', [''node'']),
      (''x_of_corner'', [''corner'']), (''y_of_corner'', [''corner'']), (''corner'', [''corner'']),
      (''nodes_at_link'', [''link'', ''Two'']),
      (''nodes_at_patch'', [''patch'', ''Three'']),
      (''corners_at_face'', [''face'', ''Two'']),
      (''corners_at_cell'', [''cell'', ''max_corners_per_cell'']),
      (''n_corners_at_cell'', [''cell'']),
      (''nodes_at_face'', [''face'', ''Two'']),
      (''cell_at_node'', [''node'']),
      (''links_at_patch'', [''patch'', ''Three'']),
      (''node_at_cell'', [''cell'']),
      (''faces_at_cell'', [''cell'', ''max_faces_per_cell''])]"

definition mesh_coords :: "string list" where
  "mesh_coords =
     [''x_of_node'', ''y_of_node'', ''node'', ''x_of_corner'', ''y_of_corner'', ''corner'']"

text \<open>A mesh state: the variables of the schema, each once; sizes that agree, so that
  every array of a kind has one row for each index \<open>0..count-1\<close> of the kind; and the
  identity arrays \<^verbatim>\<open>node\<close> and \<^verbatim>\<open>corner\<close> equal to \<^verbatim>\<open>arange(count)\<close>.\<close>

definition wf_mesh :: "dataset \<Rightarrow> bool" where
  "wf_mesh ds \<longleftrightarrow>
     distinct (map fst (variables ds)) \<and>
     set (map (\<lambda>(name, v). (name, dims v)) (variables ds)) = set schema \<and>
     consistent ds \<and>
     set (coords ds) = set mesh_coords \<and>
     list_all (\<lambda>(name, v). name \<in> set [''node'', ''corner'']
                  \<longrightarrow> vals v = Ints1 (map int [0..<len (vals v)])) (variables ds)"

text \<open>What \<^verbatim>\<open>drop_element\<close> makes of one variable before the renumbering: the identity
  array is rebuilt, the coordinates and the arrays whose name ends in \<^verbatim>\<open>at_<kind>\<close> are
  cut down to the kept rows, the others stay.\<close>

definition kept_var :: "kind \<Rightarrow> bool list \<Rightarrow> bool \<Rightarrow> string \<Rightarrow> variable \<Rightarrow> variable" where
  "kept_var knd keep has_coords name var =
     (if has_coords \<and> name = kind_name knd
      then \<lparr>dims = [kind_name knd], vals = Ints1 (map int [0..<length (filter id keep)])\<rparr>
      else if has_coords \<and> (name = ''x_of_'' @ kind_name knd \<or> name = ''y_of_'' @ kind_name knd)
      then \<lparr>dims = [kind_name knd], vals = compress_rows keep (vals var)\<rparr>
      else if suffix_search knd name then var\<lparr>vals := compress_rows keep (vals var)\<rparr>
      else var)"

text \<open>What \<^verbatim>\<open>drop_element\<close> makes of one variable, for ids within \<open>0..n-1\<close>: the kept
  rows are those whose index is not among the ids, and an array that the prefix
  pattern selects is renumbered afterwards.\<close>

definition dropped_var :: "kind \<Rightarrow> int list \<Rightarrow> nat \<Rightarrow> string \<Rightarrow> variable \<Rightarrow> variable" where
  "dropped_var knd ids n name var =
     (let v = kept_var knd (map (\<lambda>j. int j \<notin> set ids) [0..<n])
                (kind_name knd \<in> set mesh_coords) name var
      in if prefix_search knd name
         then v\<lparr>vals := map_entries (renumber (sort ids)) (renumber (sort ids)) (vals v)\<rparr>
         else v)"

text \<open>The graph of the example as \<^verbatim>\<open>__init__\<close> leaves it, after the three drops: the
  four faces on the hull and all cells but the one around the centre are gone; the
  eight links are all kept.\<close>

definition example_reduced :: graph where
  "example_reduced =
     \<lparr>mesh =
        \<lparr>coords = [''x_of_node'', ''y_of_node'', ''node'', ''x_of_corner'', ''y_of_corner'', ''corner''],
         variables =
           [(''x_of_node'', \<lparr>dims = [''node''], vals = Floats [0, 2, 2, 0, 1]\<rparr>),
            (''y_of_node'', \<lparr>dims = [''node''], vals = Floats [0, 0, 2, 2, 1]\<rparr>),
            (''node'', \<lparr>dims = [''node''], vals = Ints1 [0, 1, 2, 3, 4]\<rparr>),
            (''cell_at_node'', \<lparr>dims = [''node''], vals = Ints1 [- 1, - 1, - 1, - 1, 0]\<rparr>),
            (''x_of_corner'', \<lparr>dims = [''corner''], vals = Floats [1, 2, 1, 0]\<rparr>),
            (''y_of_corner'', \<lparr>dims = [''corner''], vals = Floats [0, 1, 2, 1]\<rparr>),
            (''corner'', \<lparr>dims = [''corner''], vals = Ints1 [0, 1, 2, 3]\<rparr>),
            (''nodes_at_link'', \<lparr>dims = [''link'', ''Two''],
               vals = Ints2 2 [[0, 1], [1, 2], [2, 3], [3, 0], [0, 4], [1, 4], [2, 4], [3, 4]]\<rparr>),
            (''nodes_at_patch'', \<lparr>dims = [''patch'', ''Three''],
               vals = Ints2 3 [[0, 1, 4], [1, 2, 4], [2, 3, 4], [3, 0, 4]]\<rparr>),
            (''links_at_patch'', \<lparr>dims = [''patch'', ''Three''],
               vals = Ints2 3 [[0, 5, 4], [1, 6, 5], [2, 7, 6], [3, 4, 7]]\<rparr>),
            (''corners_at_face'', \<lparr>dims = [''face'', ''Two''],
               vals = Ints2 2 [[0, 3], [0, 1], [1, 2], [2, 3]]\<rparr>),
            (''nodes_at_face'', \<lparr>dims = [''face'', ''Two''],
               vals = Ints2 2 [[0, 4], [1, 4], [2, 4], [3, 4]]\<rparr>),
            (''corners_at_cell'', \<lparr>dims = [''cell'', ''max_corners_per_cell''],
               vals = Ints2 4 [[0, 1, 2, 3]]\<rparr>),
            (''n_corners_at_cell'', \<lparr>dims = [''cell''], vals = Ints1 [4]\<rparr>),
            (''node_at_cell'', \<lparr>dims = [''cell''], vals = Ints1 [4]\<rparr>),
            (''faces_at_cell'', \<lparr>dims = [''cell'', ''max_faces_per_cell''],
               vals = Ints2 4 [[1, 2, 3, 0]]\<rparr>)]\<rparr>,
      perimeter_links = Some (Array [[0, 1], [1, 2], [2, 3], [3, 0]])\<rparr>"

text \<open>The graph of the example after \<^verbatim>\<open>drop_corners([3])\<close>: corner 3 is gone, and with
  it link 3 and patch 3; the face arrays keep their eight rows, row 3 with both corners
  the sentinel.\<close>

definition example_without_corner :: graph where
  "example_without_corner =
     \<lparr>mesh =
        \<lparr>coords = [''x_of_node'', ''y_of_node'', ''node'', ''x_of_corner'', ''y_of_corner'', ''corner''],
         variables =
           [(''x_of_node'', \<lparr>dims = [''node''], vals = Floats [0, 2, 2, 0, 1]\<rparr>),
            (''y_of_node'', \<lparr>dims = [''node''], vals = Floats [0, 0, 2, 2, 1]\<rparr>),
            (''node'', \<lparr>dims = [''node''], vals = Ints1 [0, 1, 2, 3, 4]\<rparr>),
            (''corners_at_face'', \<lparr>dims = [''face'', ''Two''],
               vals = Ints2 2 [[- 1, 0], [- 1, 1], [- 1, 2], [- 1, - 1], [0, - 1],
                               [0, 1], [1, 2], [2, - 1]]\<rparr>),
            (''corners_at_cell'', \<lparr>dims = [''cell'', ''max_corners_per_cell''],
               vals = Ints2 4 [[- 1, - 1, - 1, - 1], [- 1, 0, - 1, - 1], [- 1, 0, 1, - 1],
                               [0, 1, 2, - 1], [- 1, 1, 2, - 1], [- 1, 2, - 1, - 1]]\<rparr>),
            (''n_corners_at_cell'', \<lparr>dims = [''cell''], vals = Ints1 [0, 3, 3, 4, 3, 3]\<rparr>),
            (''nodes_at_face'', \<lparr>dims = [''face'', ''Two''],
               vals = Ints2 2 [[0, 1], [1, 2], [2, 3], [3, 0], [0, 4], [1, 4], [2, 4], [3, 4]]\<rparr>),
            (''cell_at_node'', \<lparr>dims = [''node''], vals = Ints1 [1, 2, 4, 5, 3]\<rparr>),
            (''node_at_cell'', \<lparr>dims = [''cell''], vals = Ints1 [- 1, 0, 1, 4, 2, 3]\<rparr>),
            (''faces_at_cell'', \<lparr>dims = [''cell'', ''max_faces_per_cell''],
               vals = Ints2 4 [[- 1, - 1, - 1, - 1], [0, 4, 3, - 1], [0, 5, 1, - 1],
                               [5, 6, 7, 4], [1, 6, 2, - 1], [2, 7, 3, - 1]]\<rparr>),
            (''x_of_corner'', \<lparr>dims = [''corner''], vals = Floats [1, 2, 1]\<rparr>),
            (''y_of_corner'', \<lparr>dims = [''corner''], vals = Floats [0, 1, 2]\<rparr>),
            (''corner'', \<lparr>dims = [''corner''], vals = Ints1 [0, 1, 2]\<rparr>),
            (''nodes_at_link'', \<lparr>dims = [''link'', ''Two''],
               vals = Ints2 2 [[0, 1], [1, 2], [2, 3], [0, 4], [1, 4], [2, 4], [3, 4]]\<rparr>),
            (''nodes_at_patch'', \<lparr>dims = [''patch'', ''Three''],
               vals = Ints2 3 [[0, 1, 4], [1, 2, 4], [2, 3, 4]]\<rparr>),
            (''links_at_patch'', \<lparr>dims = [''patch'', ''Three''],
               vals = Ints2 3 [[0, 4, 3], [1, 5, 4], [2, 6, 5]]\<rparr>)]\<rparr>,
      perimeter_links = Some (Array [[0, 1], [1, 2], [2, 3], [3, 0]])\<rparr>"

text \<open>The index space of a kind is contiguous, with \<open>n\<close> elements: the dimension of
  the kind has that size; every array that has the dimension has it as its first axis,
  with one row for each index \<open>0..n-1\<close>; and the identity array of the kind, where
  there is one, is \<^verbatim>\<open>arange(n)\<close>.\<close>

definition contiguous :: "dataset \<Rightarrow> kind \<Rightarrow> nat \<Rightarrow> bool" where
  "contiguous ds knd n \<longleftrightarrow>
     ds_dims ds (kind_name knd) = Some n \<and>
     list_all (\<lambda>(name, var).
        (kind_name knd \<in> set (dims var)
           \<longrightarrow> hd (dims var) = kind_name knd \<and> len (vals var) = n) \<and>
        (name = kind_name knd \<longrightarrow> vals var = Ints1 (map int [0..<n]))) (variables ds)"

section \<open>Basic facts\<close>

lemma ebind_Inr_iff: "ebind m f = Inr y \<longleftrightarrow> (\<exists>x. m = Inr x \<and> f x = Inr y)"
  by (cases m) (simp_all add: ebind_def)

lemma ebind_Inr [simp]: "ebind (Inr x) f = f x"
  by (simp add: ebind_def)

lemma ebind_Inl [simp]: "ebind (Inl e) f = Inl e"
  by (simp add: ebind_def)

lemma example_mesh_derived: "derived_mesh example_externals example_qhull = Inr example_mesh"
  by code_simp

lemma sort_mset_cong: "mset xs = mset ys \<Longrightarrow> sort xs = sort (ys :: int list)"
  by (metis properties_for_sort sorted_sort mset_sort)

section \<open>The claims\<close>

text \<open>C4 (as the code has it). Built without \<^verbatim>\<open>perimeter_links\<close>, the object never gets
  the attribute \<^verbatim>\<open>_perimeter_links\<close>, and \<^verbatim>\<open>unbound_corners\<close>, the first step of the
  reduction, reads it in \<^verbatim>\<open>is_perimeter_link\<close>: the construction ends in an exception for
  every output of the primitive, and in AttributeError for the example.\<close>

theorem init_without_perimeter_links_fails:
  "VoronoiDelaunayToGraph_init ext q None \<noteq> Inr self
   \<and> VoronoiDelaunayToGraph_init example_externals example_qhull None = Inl AttributeError"
proof
  have "reduction ext \<lparr>mesh = m, perimeter_links = None\<rparr> \<noteq> Inr self" for m
    by (auto simp: reduction_def unbound_corners_def is_perimeter_link_def ebind_Inr_iff)
  then show "VoronoiDelaunayToGraph_init ext q None \<noteq> Inr self"
    by (auto simp: VoronoiDelaunayToGraph_init_def ebind_Inr_iff)
  show "VoronoiDelaunayToGraph_init example_externals example_qhull None = Inl AttributeError"
    by code_simp
qed

text \<open>C10. The ids are sorted before anything else is done with them, so
  \<^verbatim>\<open>drop_element\<close> gives the same result, or raises the same exception, for every order
  in which the same ids are supplied.\<close>

theorem drop_element_permutation:
  "mset ids = mset ids' \<Longrightarrow> drop_element ids knd self = drop_element ids' knd self"
proof -
  assume "mset ids = mset ids'"
  then have "sort ids = sort ids'" by (rule sort_mset_cong)
  then show ?thesis by (simp only: drop_element_def)
qed

theorem drop_element_permutation_witness:
  "mset [3, 0 :: int] = mset [0, 3]
   \<and> drop_element [3, 0] Corner example_graph = drop_element [0, 3] Corner example_graph
   \<and> \<not> isl (drop_element [3, 0] Corner example_graph)"
proof -
  have h: "mset [3, 0 :: int] = mset [0, 3]" by simp
  have "\<not> isl (drop_element [3, 0] Corner example_graph)" by code_simp
  with h drop_element_permutation [OF h, of Corner example_graph] show ?thesis by blast
qed

subsection \<open>The padded matrix\<close>

lemma length_jagged_offset: "length (jagged_offset s rs) = Suc (length rs)"
  by (induction rs arbitrary: s) simp_all

lemma nth_jagged_offset:
  "i \<le> length rs \<Longrightarrow> jagged_offset s rs ! i = s + sum_list (map length (take i rs))"
proof (induction rs arbitrary: s i)
  case Nil
  then show ?case by simp
next
  case (Cons r rs)
  then show ?case by (cases i) simp_all
qed

lemma diff_jagged_offset: "diff (jagged_offset s rs) = map length rs"
proof (rule nth_equalityI)
  show "length (diff (jagged_offset s rs)) = length (map length rs)"
    by (simp add: diff_def length_jagged_offset)
next
  fix i assume "i < length (diff (jagged_offset s rs))"
  then have i: "i < length rs" by (simp add: diff_def length_jagged_offset)
  then show "diff (jagged_offset s rs) ! i = map length rs ! i"
    by (simp add: diff_def length_jagged_offset nth_jagged_offset take_Suc_conv_app_nth)
qed

lemma foldr_max_Max: "xs \<noteq> [] \<Longrightarrow> foldr max xs (0::nat) = Max (set xs)"
proof (induction xs)
  case Nil
  then show ?case by simp
next
  case (Cons x xs)
  then show ?case by (cases "xs = []") simp_all
qed

lemma take_drop_concat:
  "i < length rs \<Longrightarrow>
   take (length (rs ! i)) (drop (sum_list (map length (take i rs))) (concat rs)) = rs ! i"
proof -
  assume i: "i < length rs"
  then have "concat rs = concat (take i rs) @ rs ! i @ concat (drop (Suc i) rs)"
    by (metis concat.simps(2) concat_append id_take_nth_drop)
  moreover have "length (concat (take i rs)) = sum_list (map length (take i rs))"
    by (simp add: length_concat)
  ultimately show ?thesis by simp
qed

lemma jagged_row:
  assumes i: "i < length rs"
  shows "take (jagged_offset 0 rs ! Suc i - jagged_offset 0 rs ! i)
           (drop (jagged_offset 0 rs ! i) (concat rs)) = rs ! i"
  using take_drop_concat [OF i] i
  by (simp add: nth_jagged_offset take_Suc_conv_app_nth)

lemma unravel_rows:
  "map (\<lambda>i. let row = take (jagged_offset 0 rs ! Suc i - jagged_offset 0 rs ! i)
                         (drop (jagged_offset 0 rs ! i) (concat rs))
             in row @ replicate (w - length row) pad) [0..<length rs]
   = map (\<lambda>r. r @ replicate (w - length r) pad) rs"
proof (rule nth_equalityI)
  show "length (map (\<lambda>i. let row = take (jagged_offset 0 rs ! Suc i - jagged_offset 0 rs ! i)
                         (drop (jagged_offset 0 rs ! i) (concat rs))
             in row @ replicate (w - length row) pad) [0..<length rs])
        = length (map (\<lambda>r. r @ replicate (w - length r) pad) rs)"
    by simp
next
  fix i
  assume "i < length (map (\<lambda>i. let row = take (jagged_offset 0 rs ! Suc i - jagged_offset 0 rs ! i)
                         (drop (jagged_offset 0 rs ! i) (concat rs))
             in row @ replicate (w - length row) pad) [0..<length rs])"
  then have i: "i < length rs" by simp
  have "(let row = take (jagged_offset 0 rs ! Suc i - jagged_offset 0 rs ! i)
                         (drop (jagged_offset 0 rs ! i) (concat rs))
             in row @ replicate (w - length row) pad) = rs ! i @ replicate (w - length (rs ! i)) pad"
    by (simp only: Let_def jagged_row [OF i])
  with i show "map (\<lambda>i. let row = take (jagged_offset 0 rs ! Suc i - jagged_offset 0 rs ! i)
                         (drop (jagged_offset 0 rs ! i) (concat rs))
             in row @ replicate (w - length row) pad) [0..<length rs] ! i
        = map (\<lambda>r. r @ replicate (w - length r) pad) rs ! i"
    by (simp del: length_take take_all_iff)
qed

text \<open>C9. The padded matrix built for \<^verbatim>\<open>corners_at_cell\<close> from a non-empty sequence of
  rows is as wide as the longest row, and each of its rows is the given row, in its
  order, followed by the sentinel up to that width.\<close>

theorem corners_at_cell_padded:
  assumes "rs \<noteq> []"
  shows "corners_at_cell_of rs =
           Ints2 (Max (set (map length rs)))
             (map (\<lambda>r. r @ replicate (Max (set (map length rs)) - length r) (- 1)) rs)"
proof -
  have w: "foldr max (map length rs) 0 = Max (set (map length rs))"
    using assms by (simp add: foldr_max_Max)
  show ?thesis
    unfolding corners_at_cell_of_def unravel_def jagged_array_def
    by (simp only: Let_def diff_jagged_offset w length_jagged_offset diff_Suc_1 unravel_rows [unfolded Let_def])
qed

theorem corners_at_cell_padded_witness:
  "[[0, 1, 2], [], [- 1, 0 :: int]] \<noteq> []
   \<and> corners_at_cell_of [[0, 1, 2], [], [- 1, 0]] = Ints2 3 [[0, 1, 2], [- 1, - 1, - 1], [- 1, 0, - 1]]"
  using corners_at_cell_padded [of "[[0, 1, 2], [], [- 1, 0]]"]
  by (simp add: numeral_3_eq_3)

subsection \<open>The classifications\<close>

lemma np_index_nat: "i < n \<Longrightarrow> np_index n (int i) = Some i"
  by (simp add: np_index_def)

lemma take_rows_nat:
  "\<forall>i\<in>set idx. i < length rows \<Longrightarrow> take_rows (map int idx) rows = Inr (map ((!) rows) idx)"
  by (induction idx) (simp_all add: np_index_nat)

lemma take_rows_where_true:
  "length b \<le> length rows \<Longrightarrow>
   take_rows (where_true b) rows = Inr (map ((!) rows) (filter (\<lambda>i. b ! i) [0..<length b]))"
  unfolding where_true_def by (rule take_rows_nat) auto

lemma broadcast2_same:
  "length xs = length ys \<Longrightarrow> broadcast2 f xs ys = Inr (map2 f xs ys)"
  by (simp add: broadcast2_def)

lemma is_perimeter_face_Inr:
  "is_perimeter_face self = Inr b \<longleftrightarrow>
   (\<exists>rows. get_ints2 (mesh self) ''corners_at_face'' = Inr rows \<and> b = map (list_ex (\<lambda>v. v = - 1)) rows)"
  by (auto simp: is_perimeter_face_def ebind_Inr_iff)

text \<open>C6 (amended). The claim as worded, for every mesh state where a perimeter-link
  classification is available, does not hold: \<^verbatim>\<open>unbound_corners\<close> compares the link flags
  with the face flags element by element, and raises where the two arrays differ in
  length, as they do on the graph that \<^verbatim>\<open>__init__\<close> leaves (see
  \<open>unbound_corners_counterexample\<close> below). Amended: where the face and the link
  classifications are both available and have the same length (one link for each face,
  as when \<^verbatim>\<open>__init__\<close> calls it, before anything is dropped), \<^verbatim>\<open>unbound_corners\<close> returns,
  as a set, exactly the corner ids (the entries that are not negative) at the faces \<open>f\<close>
  that are perimeter faces and are not perimeter links; no other corner is returned.\<close>

theorem unbound_corners_set:
  assumes face: "is_perimeter_face self = Inr is_face"
    and link: "is_perimeter_link ext self = Inr is_link"
    and len: "length is_link = length is_face"
    and caf: "get_ints2 (mesh self) ''corners_at_face'' = Inr corners_at_face"
  shows "\<exists>cs. unbound_corners ext self = Inr cs \<and>
           set cs = {c. 0 \<le> c \<and> (\<exists>f < length is_face. is_face ! f \<and> \<not> is_link ! f
                                     \<and> c \<in> set (corners_at_face ! f))}"
proof -
  from face caf have n: "length is_face = length corners_at_face"
    by (auto simp: is_perimeter_face_Inr)
  define drop where "drop = map2 (\<and>) is_face (map2 (\<noteq>) is_link is_face)"
  have ld: "length drop = length is_face" by (simp add: drop_def len)
  have d: "drop ! f \<longleftrightarrow> is_face ! f \<and> \<not> is_link ! f" if "f < length is_face" for f
    using that len by (auto simp: drop_def)
  define cs where "cs = filter (\<lambda>c. c \<ge> 0)
     (concat (map ((!) corners_at_face) (filter (\<lambda>i. drop ! i) [0..<length drop])))"
  have b1: "broadcast2 (\<noteq>) is_link is_face = Inr (map2 (\<noteq>) is_link is_face)"
    by (rule broadcast2_same [OF len])
  have b2: "broadcast2 (\<and>) is_face (map2 (\<noteq>) is_link is_face) = Inr drop"
    unfolding drop_def by (rule broadcast2_same) (simp add: len)
  have tr: "take_rows (where_true drop) corners_at_face
          = Inr (map ((!) corners_at_face) (filter (\<lambda>i. drop ! i) [0..<length drop]))"
    by (rule take_rows_where_true) (simp add: ld n)
  have "unbound_corners ext self = Inr cs"
    unfolding unbound_corners_def
    by (simp only: face link caf b1 b2 tr ebind_Inr cs_def)
  moreover have "set cs = {c. 0 \<le> c \<and> (\<exists>f < length is_face. is_face ! f \<and> \<not> is_link ! f
                                     \<and> c \<in> set (corners_at_face ! f))}"
    unfolding cs_def using d by (auto simp: ld)
  ultimately show ?thesis by blast
qed

text \<open>C7. A cell is a perimeter cell exactly when the sentinel is among the first
  \<^verbatim>\<open>n_corners_at_cell\<close> entries of its row of \<^verbatim>\<open>corners_at_cell\<close>, or that count is
  less than 3; the padding after the count does not matter. (\<^verbatim>\<open>id_array_contains\<close> is
  modelled from the spec.)\<close>

theorem is_perimeter_cell_iff:
  assumes "get_ints2 (mesh self) ''corners_at_cell'' = Inr corners_at_cell"
    and "get_ints (mesh self) ''n_corners_at_cell'' = Inr n_corners_at_cell"
    and "length corners_at_cell = length n_corners_at_cell"
  shows "\<exists>b. is_perimeter_cell self = Inr b \<and> length b = length corners_at_cell \<and>
           (\<forall>c < length corners_at_cell.
              b ! c \<longleftrightarrow> - 1 \<in> set (take (nat (n_corners_at_cell ! c)) (corners_at_cell ! c))
                        \<or> n_corners_at_cell ! c < 3)"
  using assms
  by (auto simp: is_perimeter_cell_def id_array_contains_def broadcast2_same list_ex_iff)

theorem unbound_corners_set_witness:
  "is_perimeter_face (example_graph\<lparr>perimeter_links := Some (Array [[0, 1], [1, 2], [2, 3]])\<rparr>)
     = Inr [True, True, True, True, False, False, False, False]
   \<and> is_perimeter_link example_externals
        (example_graph\<lparr>perimeter_links := Some (Array [[0, 1], [1, 2], [2, 3]])\<rparr>)
     = Inr [True, True, True, False, False, False, False, False]
   \<and> (\<exists>cs. unbound_corners example_externals
              (example_graph\<lparr>perimeter_links := Some (Array [[0, 1], [1, 2], [2, 3]])\<rparr>) = Inr cs
          \<and> set cs = {c. 0 \<le> c \<and>
                (\<exists>f < length [True, True, True, True, False, False, False, False].
                   [True, True, True, True, False, False, False, False] ! f
                   \<and> \<not> [True, True, True, False, False, False, False, False] ! f
                   \<and> c \<in> set ([[- 1, 0], [- 1, 1], [- 1, 2], [- 1, 3], [0, 3], [0, 1], [1, 2], [2, 3]] ! f))})"
proof -
  let ?g = "example_graph\<lparr>perimeter_links := Some (Array [[0, 1], [1, 2], [2, 3]])\<rparr>"
  have f: "is_perimeter_face ?g = Inr [True, True, True, True, False, False, False, False]"
    by code_simp
  have l: "is_perimeter_link example_externals ?g
             = Inr [True, True, True, False, False, False, False, False]"
    by code_simp
  have c: "get_ints2 (mesh ?g) ''corners_at_face''
             = Inr [[- 1, 0], [- 1, 1], [- 1, 2], [- 1, 3], [0, 3], [0, 1], [1, 2], [2, 3]]"
    by code_simp
  have n: "length [True, True, True, False, False, False, False, False]
             = length [True, True, True, True, False, False, False, False]"
    by simp
  from f l unbound_corners_set [OF f l n c] show ?thesis by blast
qed

text \<open>Counterexample to C6 as worded. On the graph that \<^verbatim>\<open>__init__\<close> leaves for the
  example (\<open>example_reduced\<close>, the value of \<^verbatim>\<open>reduction\<close> on the example) the perimeter
  links are available, with eight link flags, but there are four faces only:
  \<^verbatim>\<open>unbound_corners\<close> raises \<^verbatim>\<open>ValueError\<close> (the two operands do not broadcast) and
  returns no set of corners.\<close>

theorem unbound_corners_counterexample:
  "reduction example_externals example_graph = Inr example_reduced
   \<and> perimeter_links example_reduced = Some (Array [[0, 1], [1, 2], [2, 3], [3, 0]])
   \<and> is_perimeter_face example_reduced = Inr [False, False, False, False]
   \<and> is_perimeter_link example_externals example_reduced
       = Inr [True, True, True, True, False, False, False, False]
   \<and> unbound_corners example_externals example_reduced = Inl ValueError"
  by code_simp

theorem is_perimeter_cell_iff_witness:
  "get_ints2 (mesh example_graph) ''corners_at_cell''
     = Inr [[- 1, - 1, - 1, - 1], [- 1, 0, 3, - 1], [- 1, 0, 1, - 1],
            [0, 1, 2, 3], [- 1, 1, 2, - 1], [- 1, 2, 3, - 1]]
   \<and> get_ints (mesh example_graph) ''n_corners_at_cell'' = Inr [0, 3, 3, 4, 3, 3]
   \<and> is_perimeter_cell example_graph = Inr [True, True, True, False, True, True]
   \<and> (\<exists>b. is_perimeter_cell example_graph = Inr b \<and>
          length b = length [[- 1, - 1, - 1, - 1], [- 1, 0, 3, - 1], [- 1, 0, 1, - 1],
                             [0, 1, 2, 3], [- 1, 1, 2, - 1], [- 1, 2, 3, - 1 :: int]] \<and>
          (\<forall>c < length [[- 1, - 1, - 1, - 1], [- 1, 0, 3, - 1], [- 1, 0, 1, - 1],
                         [0, 1, 2, 3], [- 1, 1, 2, - 1], [- 1, 2, 3, - 1 :: int]].
             b ! c \<longleftrightarrow>
               - 1 \<in> set (take (nat ([0, 3, 3, 4, 3, 3] ! c))
                            ([[- 1, - 1, - 1, - 1], [- 1, 0, 3, - 1], [- 1, 0, 1, - 1],
                              [0, 1, 2, 3], [- 1, 1, 2, - 1], [- 1, 2, 3, - 1 :: int]] ! c))
               \<or> [0, 3, 3, 4, 3, 3 :: int] ! c < 3))"
proof -
  have c: "get_ints2 (mesh example_graph) ''corners_at_cell''
     = Inr [[- 1, - 1, - 1, - 1], [- 1, 0, 3, - 1], [- 1, 0, 1, - 1],
            [0, 1, 2, 3], [- 1, 1, 2, - 1], [- 1, 2, 3, - 1]]"
    by code_simp
  have n: "get_ints (mesh example_graph) ''n_corners_at_cell'' = Inr [0, 3, 3, 4, 3, 3]"
    by code_simp
  have l: "length [[- 1, - 1, - 1, - 1], [- 1, 0, 3, - 1], [- 1, 0, 1, - 1],
            [0, 1, 2, 3], [- 1, 1, 2, - 1], [- 1, 2, 3, - 1 :: int]]
           = length [0, 3, 3, 4, 3, 3 :: int]"
    by simp
  have v: "is_perimeter_cell example_graph = Inr [True, True, True, False, True, True]"
    by code_simp
  from c n v is_perimeter_cell_iff [OF c n l] show ?thesis by blast
qed

subsection \<open>The renumbering of an entry\<close>

lemma shift_down_sentinel:
  "\<forall>i\<in>set ds. - 1 \<le> i \<Longrightarrow> shift_down ds (- 1 :: 'a::linordered_idom) = - 1"
proof (induction ds)
  case Nil
  then show ?case by simp
next
  case (Cons d ds)
  then have "- 1 \<le> d" by simp
  then have "(of_int (- 1) :: 'a) \<le> of_int d" by (simp only: of_int_le_iff)
  then have "\<not> (- 1 :: 'a) > of_int d" by simp
  with Cons show ?case by simp
qed

lemma shift_down_rev_closed:
  fixes x :: "'a::linordered_idom"
  shows "sorted ds \<Longrightarrow> distinct ds \<Longrightarrow> x \<notin> of_int ` set ds \<Longrightarrow>
         shift_down (rev ds) x = x - of_nat (length (filter (\<lambda>d. of_int d < x) ds))"
proof (induction ds arbitrary: x rule: rev_induct)
  case Nil
  then show ?case by simp
next
  case (snoc d ds)
  from snoc.prems have sd: "sorted ds" and dd: "distinct ds" and lt: "\<forall>e\<in>set ds. e < d"
    and xd: "x \<noteq> of_int d" and xds: "x \<notin> of_int ` set ds"
    by (auto simp: sorted_append less_le)
  show ?case
  proof (cases "x > of_int d")
    case True
    have below: "of_int e < x - 1" if "e \<in> set ds" for e
    proof -
      from lt that have "e + 1 \<le> d" by auto
      then have "(of_int (e + 1) :: 'a) \<le> of_int d" by (simp only: of_int_le_iff)
      with True show ?thesis by simp
    qed
    have notin: "x - 1 \<notin> of_int ` set ds"
    proof
      assume "x - 1 \<in> of_int ` set ds"
      then obtain e where "e \<in> set ds" and "x - 1 = of_int e" by blast
      with below [of e] show False by simp
    qed
    have all1: "filter (\<lambda>d. (of_int d :: 'a) < x - 1) ds = ds"
      using below by (simp add: filter_id_conv)
    have all2: "filter (\<lambda>d. (of_int d :: 'a) < x) ds = ds"
    proof -
      have "of_int e < x" if "e \<in> set ds" for e
        using below [OF that] by simp
      then show ?thesis by (simp add: filter_id_conv)
    qed
    from snoc.IH [OF sd dd notin] True show ?thesis
      by (simp add: all1 all2)
  next
    case False
    with xd have xl: "x < of_int d" by simp
    from snoc.IH [OF sd dd xds] False xl show ?thesis
      by simp
  qed
qed

lemma renumber_sort_spec:
  fixes x :: "'a::linordered_idom"
  assumes "distinct ids" and "\<forall>i\<in>set ids. 0 \<le> i"
  shows "renumber (sort ids) x = spec_renumber ids x"
proof (cases "x \<in> of_int ` set ids")
  case True
  have "\<forall>i\<in>set (rev (sort ids)). - 1 \<le> i" using assms(2) by auto
  then have "shift_down (rev (sort ids)) (- 1 :: 'a) = - 1" by (rule shift_down_sentinel)
  with True show ?thesis by (simp add: renumber_def spec_renumber_def)
next
  case False
  then have "x \<notin> of_int ` set (sort ids)" by simp
  from shift_down_rev_closed [OF sorted_sort _ this] assms(1)
  have "shift_down (rev (sort ids)) x
          = x - of_nat (length (filter (\<lambda>d. of_int d < x) (sort ids)))"
    by simp
  moreover have "length (filter (\<lambda>d. (of_int d :: 'a) < x) (sort ids))
                   = length (filter (\<lambda>d. of_int d < x) ids)"
  proof -
    have "mset (filter (\<lambda>d. (of_int d :: 'a) < x) (sort ids))
            = mset (filter (\<lambda>d. of_int d < x) ids)"
      by simp
    then show ?thesis by (rule mset_eq_length)
  qed
  ultimately show ?thesis using False assms(1)
    by (simp add: renumber_def spec_renumber_def distinct_remdups_id)
qed

lemma spec_renumber_card:
  "spec_renumber ids (x::int) =
     (if x \<in> set ids then - 1 else x - int (card {d \<in> set ids. d < x}))"
proof -
  have "length (filter (\<lambda>d. d < x) (remdups ids)) = card {d \<in> set ids. d < x}"
  proof -
    have "card (set (filter (\<lambda>d. d < x) (remdups ids))) = length (filter (\<lambda>d. d < x) (remdups ids))"
      by (rule distinct_card) simp
    moreover have "set (filter (\<lambda>d. d < x) (remdups ids)) = {d \<in> set ids. d < x}"
      by auto
    ultimately show ?thesis by simp
  qed
  then show ?thesis by (simp add: spec_renumber_def)
qed

subsection \<open>The steps of \<^verbatim>\<open>drop_element\<close>\<close>

lemma map_of_foldl_update:
  "map_of (foldl (\<lambda>al (k, v). AList.update k v al) al kvs) = map_of al ++ map_of (rev kvs)"
proof (induction kvs arbitrary: al)
  case Nil
  then show ?case by simp
next
  case (Cons kv kvs)
  obtain k v where kv: "kv = (k, v)" by (cases kv)
  have "map_of (foldl (\<lambda>al (k, v). AList.update k v al) al (kv # kvs))
          = map_of (AList.update k v al) ++ map_of (rev kvs)"
    by (simp add: kv Cons.IH)
  also have "\<dots> = map_of al ++ map_of (rev (kv # kvs))"
    by (rule ext) (auto simp: kv update_conv' map_add_def split: option.splits)
  finally show ?case .
qed

lemma lookup_foldl_update_notin:
  "name \<notin> fst ` set kvs \<Longrightarrow>
   map_of (foldl (\<lambda>al (k, v). AList.update k v al) al kvs) name = map_of al name"
  by (simp add: map_of_foldl_update map_add_def map_of_eq_None_iff [THEN iffD2])

lemma lookup_foldl_update_in:
  "distinct (map fst kvs) \<Longrightarrow> (name, v) \<in> set kvs \<Longrightarrow>
   map_of (foldl (\<lambda>al (k, v). AList.update k v al) al kvs) name = Some v"
  by (simp add: map_of_foldl_update map_add_def rev_map [symmetric])

lemma map_of_filter_names:
  "map_of (filter (\<lambda>(name, v). name \<notin> N) vs) name = (if name \<in> N then None else map_of vs name)"
  by (induction vs) auto

lemma map_of_renumber_vars:
  "map_of (renumber_vars knd dropped vs) name =
     map_option (\<lambda>var. if prefix_search knd name
                        then var\<lparr>vals := map_entries (renumber dropped) (renumber dropped) (vals var)\<rparr>
                        else var) (map_of vs name)"
  by (induction vs) (auto simp: renumber_vars_def)

lemma names_renumber_vars: "map fst (renumber_vars knd dropped vs) = map fst vs"
  by (induction vs) (auto simp: renumber_vars_def)

lemma prefix_search_not_coord:
  "prefix_search knd name \<Longrightarrow>
   name \<noteq> kind_name knd \<and> name \<noteq> ''x_of_'' @ kind_name knd \<and> name \<noteq> ''y_of_'' @ kind_name knd"
  by (cases knd) (auto simp: prefix_search_def)

lemma suffix_search_not_coord:
  "suffix_search knd name \<Longrightarrow>
   name \<noteq> kind_name knd \<and> name \<noteq> ''x_of_'' @ kind_name knd \<and> name \<noteq> ''y_of_'' @ kind_name knd"
  by (cases knd) (auto simp: suffix_search_def suffix_to_prefix)

lemma collect_rows_Inr_iff:
  "collect_rows knd keep vs = Inr d \<longleftrightarrow>
     (\<forall>(name, var) \<in> set vs. suffix_search knd name \<longrightarrow> length keep = len (vals var)) \<and>
     d = map (\<lambda>(name, var). (name, \<lparr>da_dims = dims var, da_vals = compress_rows keep (vals var),
                                   da_coords = []\<rparr>))
             (filter (\<lambda>(name, var). suffix_search knd name) vs)"
proof (induction vs arbitrary: d)
  case Nil
  then show ?case by auto
next
  case (Cons nv vs)
  obtain name var where nv: "nv = (name, var)" by (cases nv)
  show ?case
    by (auto simp: nv Cons.IH ebind_Inr_iff mask_rows_def)
qed

lemma drop_coords_Inr_iff:
  "drop_coords knd keep ds = Inr (at_0, mesh1) \<longleftrightarrow>
     (if kind_name knd \<in> set (coords ds)
      then \<exists>xa ya. ds_get ds (''x_of_'' @ kind_name knd) = Inr xa \<and> length keep = len xa
             \<and> ds_get ds (''y_of_'' @ kind_name knd) = Inr ya \<and> length keep = len ya
             \<and> at_0 = [(kind_name knd,
                        \<lparr>da_dims = [kind_name knd],
                         da_vals = Ints1 (map int [0..<len (compress_rows keep xa)]),
                         da_coords =
                           [(''x_of_'' @ kind_name knd,
                             \<lparr>dims = [kind_name knd], vals = compress_rows keep xa\<rparr>),
                            (''y_of_'' @ kind_name knd,
                             \<lparr>dims = [kind_name knd], vals = compress_rows keep ya\<rparr>)]\<rparr>)]
             \<and> mesh1 = ds_drop [''x_of_'' @ kind_name knd, ''y_of_'' @ kind_name knd] ds
      else at_0 = [] \<and> mesh1 = ds)"
  unfolding drop_coords_def
  by (cases "ds_get ds (''x_of_'' @ kind_name knd)"; cases "ds_get ds (''y_of_'' @ kind_name knd)")
     (auto simp: mask_rows_def)

lemma drop_element_InrE:
  assumes "drop_element ids knd self = Inr self'"
  obtains n keep at_0 mesh1 at_1 mesh2 where
    "ds_dims (mesh self) (kind_name knd) = Some n"
    "set_false (replicate n True) (sort ids) = Inr keep"
    "drop_coords knd keep (mesh self) = Inr (at_0, mesh1)"
    "collect_rows knd keep (variables mesh1) = Inr at_1"
    "ds_update (at_0 @ at_1) (ds_drop (map fst (at_0 @ at_1)) mesh1) = Inr mesh2"
    "self' = self\<lparr>mesh := mesh2\<lparr>variables := renumber_vars knd (sort ids) (variables mesh2)\<rparr>\<rparr>"
  using assms unfolding drop_element_def Let_def
  by (auto simp: ebind_Inr_iff split: option.splits)

lemma ds_update_Inr_iff:
  "ds_update d ds = Inr ds' \<longleftrightarrow>
     consistent ds' \<and>
     ds' = \<lparr>coords = remdups (coords ds @ concat (map da_coord_names d)),
            variables = foldl (\<lambda>al (k, v). AList.update k v al) (variables ds)
                              (concat (map da_entries d))\<rparr>"
  unfolding ds_update_def Let_def by auto


lemma keys_collect_rows:
  "collect_rows knd keep vs = Inr d \<Longrightarrow> name \<in> fst ` set (concat (map da_entries d)) \<Longrightarrow>
   suffix_search knd name"
  by (auto simp: collect_rows_Inr_iff)

lemma keys_drop_coords:
  "drop_coords knd keep ds = Inr (at_0, mesh1) \<Longrightarrow> name \<in> fst ` set (concat (map da_entries at_0)) \<Longrightarrow>
   name = kind_name knd \<or> name = ''x_of_'' @ kind_name knd \<or> name = ''y_of_'' @ kind_name knd"
  by (auto simp: drop_coords_Inr_iff split: if_splits)

lemma lookup_ds_drop:
  "map_of (variables (ds_drop names ds)) name =
     (if name \<in> set names then None else map_of (variables ds) name)"
  by (simp add: ds_drop_def map_of_filter_names)

lemma lookup_drop_coords:
  "drop_coords knd keep ds = Inr (at_0, mesh1) \<Longrightarrow>
   name \<noteq> ''x_of_'' @ kind_name knd \<Longrightarrow> name \<noteq> ''y_of_'' @ kind_name knd \<Longrightarrow>
   map_of (variables mesh1) name = map_of (variables ds) name"
  by (auto simp: drop_coords_Inr_iff lookup_ds_drop split: if_splits)

lemma names_subset_entries: "fst ` set d \<subseteq> fst ` set (concat (map da_entries d))"
proof (induction d)
  case Nil
  then show ?case by simp
next
  case (Cons x d)
  have a: "fst ` set (concat (map da_entries (x # d)))
             = fst ` set (da_entries x) \<union> fst ` set (concat (map da_entries d))"
    by (simp add: image_Un)
  have b: "fst x \<in> fst ` set (da_entries x)"
    by (cases x) (simp add: image_Un)
  show ?case using Cons.IH b unfolding a by auto
qed

lemma drop_element_lookup_other:
  assumes ok: "drop_element ids knd self = Inr self'"
    and nsuf: "\<not> suffix_search knd name"
    and nc: "name \<noteq> kind_name knd" "name \<noteq> ''x_of_'' @ kind_name knd"
            "name \<noteq> ''y_of_'' @ kind_name knd"
  shows "map_of (variables (mesh self')) name =
           map_option (\<lambda>var. if prefix_search knd name
                        then var\<lparr>vals := map_entries (renumber (sort ids)) (renumber (sort ids)) (vals var)\<rparr>
                        else var) (map_of (variables (mesh self)) name)"
proof -
  from ok obtain n keep at_0 mesh1 at_1 mesh2 where
    "ds_dims (mesh self) (kind_name knd) = Some n"
    and dc: "drop_coords knd keep (mesh self) = Inr (at_0, mesh1)"
    and cr: "collect_rows knd keep (variables mesh1) = Inr at_1"
    and up: "ds_update (at_0 @ at_1) (ds_drop (map fst (at_0 @ at_1)) mesh1) = Inr mesh2"
    and self': "self' = self\<lparr>mesh := mesh2\<lparr>variables := renumber_vars knd (sort ids) (variables mesh2)\<rparr>\<rparr>"
    by (rule drop_element_InrE)
  have notin: "name \<notin> fst ` set (concat (map da_entries (at_0 @ at_1)))"
    using keys_collect_rows [OF cr, of name] keys_drop_coords [OF dc, of name] nsuf nc
    by auto
  then have notin': "name \<notin> set (map fst (at_0 @ at_1))"
    using names_subset_entries [of "at_0 @ at_1"] by auto
  from up have "variables mesh2 =
      foldl (\<lambda>al (k, v). AList.update k v al)
        (variables (ds_drop (map fst (at_0 @ at_1)) mesh1)) (concat (map da_entries (at_0 @ at_1)))"
    by (simp add: ds_update_Inr_iff)
  then have "map_of (variables mesh2) name
               = map_of (variables (ds_drop (map fst (at_0 @ at_1)) mesh1)) name"
    using lookup_foldl_update_notin [OF notin] by simp
  also have "\<dots> = map_of (variables mesh1) name"
    using notin' by (simp only: lookup_ds_drop if_False)
  also have "\<dots> = map_of (variables (mesh self)) name"
    using dc nc by (simp add: lookup_drop_coords)
  finally show ?thesis by (simp add: self' map_of_renumber_vars)
qed

text \<open>C2. After \<^verbatim>\<open>drop_element(ids, kind)\<close> with distinct ids, none negative, every
  array whose name the prefix pattern of the kind selects (and that is not itself cut
  down to the kept rows) has each entry rewritten: an entry that was in \<open>ids\<close> is the
  sentinel, and any other entry \<open>i\<close> is \<open>i\<close> minus the number of dropped ids less
  than \<open>i\<close>. On an array of coordinates the same holds with the comparisons in the
  reals.\<close>

theorem drop_element_renumbers:
  assumes ok: "drop_element ids knd self = Inr self'"
    and dist: "distinct ids" and nonneg: "\<forall>i\<in>set ids. 0 \<le> i"
    and pre: "prefix_search knd name" and nsuf: "\<not> suffix_search knd name"
    and var: "map_of (variables (mesh self)) name = Some var"
  shows "map_of (variables (mesh self')) name =
           Some (var\<lparr>vals := map_entries
                    (\<lambda>x. if x \<in> set ids then - 1 else x - int (card {d \<in> set ids. d < x}))
                    (spec_renumber ids) (vals var)\<rparr>)"
proof -
  have r: "renumber (sort ids) = (spec_renumber ids :: 'a::linordered_idom \<Rightarrow> 'a)"
    by (rule ext) (rule renumber_sort_spec [OF dist nonneg])
  have c: "spec_renumber ids = (\<lambda>x::int. if x \<in> set ids then - 1 else x - int (card {d \<in> set ids. d < x}))"
    by (rule ext) (rule spec_renumber_card)
  from prefix_search_not_coord [OF pre]
  have "map_of (variables (mesh self')) name =
           map_option (\<lambda>var. if prefix_search knd name
                        then var\<lparr>vals := map_entries (renumber (sort ids)) (renumber (sort ids)) (vals var)\<rparr>
                        else var) (map_of (variables (mesh self)) name)"
    by (intro drop_element_lookup_other [OF ok nsuf]) simp_all
  then show ?thesis by (simp add: var pre r c [symmetric])
qed

theorem drop_element_renumbers_witness:
  "distinct [3, 0 :: int] \<and> list_all (\<lambda>i. 0 \<le> i) [3, 0 :: int]
   \<and> prefix_search Corner ''corners_at_face'' \<and> \<not> suffix_search Corner ''corners_at_face''
   \<and> (\<exists>self'. drop_element [3, 0] Corner example_graph = Inr self' \<and>
          map_of (variables (mesh self')) ''corners_at_face'' =
            Some \<lparr>dims = [''face'', ''Two''],
                  vals = Ints2 2 [[- 1, - 1], [- 1, 0], [- 1, 1], [- 1, - 1],
                                  [- 1, - 1], [- 1, 0], [0, 1], [1, - 1]]\<rparr>)"
proof -
  have "\<not> isl (drop_element [3, 0] Corner example_graph)" by code_simp
  then obtain self' where ok: "drop_element [3, 0] Corner example_graph = Inr self'"
    by (cases "drop_element [3, 0] Corner example_graph") auto
  have d: "distinct [3, 0 :: int]" by simp
  have n: "\<forall>i\<in>set [3, 0 :: int]. 0 \<le> i" by simp
  have p: "prefix_search Corner ''corners_at_face''" by code_simp
  have s: "\<not> suffix_search Corner ''corners_at_face''" by code_simp
  have v: "map_of (variables (mesh example_graph)) ''corners_at_face'' =
             Some \<lparr>dims = [''face'', ''Two''],
                   vals = Ints2 2 [[- 1, 0], [- 1, 1], [- 1, 2], [- 1, 3],
                                   [0, 3], [0, 1], [1, 2], [2, 3]]\<rparr>"
    by code_simp
  have e: "\<lparr>dims = [''face'', ''Two''],
            vals = Ints2 2 [[- 1, 0], [- 1, 1], [- 1, 2], [- 1, 3],
                            [0, 3], [0, 1], [1, 2], [2, 3]]\<rparr>
           \<lparr>vals := map_entries
              (\<lambda>x. if x \<in> set [3, 0] then - 1 else x - int (card {d \<in> set [3, 0]. d < x}))
              (spec_renumber [3, 0])
              (vals \<lparr>dims = [''face'', ''Two''],
                      vals = Ints2 2 [[- 1, 0], [- 1, 1], [- 1, 2], [- 1, 3],
                                      [0, 3], [0, 1], [1, 2], [2, 3]]\<rparr>)\<rparr>
           = \<lparr>dims = [''face'', ''Two''],
               vals = Ints2 2 [[- 1, - 1], [- 1, 0], [- 1, 1], [- 1, - 1],
                               [- 1, - 1], [- 1, 0], [0, 1], [1, - 1]]\<rparr>"
    by code_simp
  from drop_element_renumbers [OF ok d n p s v] have
    "map_of (variables (mesh self')) ''corners_at_face'' =
       Some \<lparr>dims = [''face'', ''Two''],
             vals = Ints2 2 [[- 1, - 1], [- 1, 0], [- 1, 1], [- 1, - 1],
                             [- 1, - 1], [- 1, 0], [0, 1], [1, - 1]]\<rparr>"
    by (simp only: e)
  moreover have "list_all (\<lambda>i. 0 \<le> i) [3, 0 :: int]" by simp
  ultimately show ?thesis using ok d p s by blast
qed

subsection \<open>The names of the schema under the patterns of each kind\<close>

lemma wf_example: "wf_mesh example_mesh"
  by code_simp

lemma all_kinds: "list_all P [Node, Corner, Link, Face, Patch, Cell] \<Longrightarrow> P knd"
  by (cases knd) simp_all

lemma schema_kind_all:
  "list_all (\<lambda>knd. list_all (\<lambda>(name, d).
      (kind_name knd \<in> set d \<longleftrightarrow>
         suffix_search knd name \<or>
         (kind_name knd \<in> set mesh_coords \<and>
          (name = kind_name knd \<or> name = ''x_of_'' @ kind_name knd \<or> name = ''y_of_'' @ kind_name knd)))
      \<and> (kind_name knd \<in> set d \<longrightarrow> hd d = kind_name knd \<and> kind_name knd \<notin> set (tl d))
      \<and> \<not> (prefix_search knd name \<and> suffix_search knd name)
      \<and> (suffix_search knd name \<longrightarrow> d \<noteq> [name])) schema) [Node, Corner, Link, Face, Patch, Cell]"
  by code_simp

lemma schema_kind:
  assumes "(name, d) \<in> set schema"
  shows "kind_name knd \<in> set d \<longleftrightarrow>
         suffix_search knd name \<or>
         (kind_name knd \<in> set mesh_coords \<and>
          (name = kind_name knd \<or> name = ''x_of_'' @ kind_name knd \<or> name = ''y_of_'' @ kind_name knd))"
    and "kind_name knd \<in> set d \<Longrightarrow> hd d = kind_name knd \<and> kind_name knd \<notin> set (tl d)"
    and "\<not> (prefix_search knd name \<and> suffix_search knd name)"
    and "suffix_search knd name \<Longrightarrow> d \<noteq> [name]"
proof -
  note * = all_kinds [OF schema_kind_all, of knd, unfolded list_all_iff, THEN bspec, OF assms,
      unfolded prod.case]
  from * show "kind_name knd \<in> set d \<longleftrightarrow>
         suffix_search knd name \<or>
         (kind_name knd \<in> set mesh_coords \<and>
          (name = kind_name knd \<or> name = ''x_of_'' @ kind_name knd \<or> name = ''y_of_'' @ kind_name knd))"
    by blast
  from * show "kind_name knd \<in> set d \<Longrightarrow> hd d = kind_name knd \<and> kind_name knd \<notin> set (tl d)"
    by blast
  from * show "\<not> (prefix_search knd name \<and> suffix_search knd name)"
    by blast
  from * show "suffix_search knd name \<Longrightarrow> d \<noteq> [name]"
    by blast
qed

lemma schema_coords_all:
  "list_all (\<lambda>knd. kind_name knd \<in> set mesh_coords \<longrightarrow>
     map_of schema (kind_name knd) = Some [kind_name knd] \<and>
     map_of schema (''x_of_'' @ kind_name knd) = Some [kind_name knd] \<and>
     map_of schema (''y_of_'' @ kind_name knd) = Some [kind_name knd])
     [Node, Corner, Link, Face, Patch, Cell]"
  by code_simp

lemma schema_coords:
  "kind_name knd \<in> set mesh_coords \<Longrightarrow>
     map_of schema (kind_name knd) = Some [kind_name knd] \<and>
     map_of schema (''x_of_'' @ kind_name knd) = Some [kind_name knd] \<and>
     map_of schema (''y_of_'' @ kind_name knd) = Some [kind_name knd]"
  by (rule all_kinds [OF schema_coords_all, of knd, rule_format])

lemma schema_has_kind_all:
  "list_all (\<lambda>knd. list_ex (\<lambda>(name, d). kind_name knd \<in> set d) schema)
     [Node, Corner, Link, Face, Patch, Cell]"
  by code_simp

lemma schema_has_kind: "\<exists>(name, d) \<in> set schema. kind_name knd \<in> set d"
  using all_kinds [OF schema_has_kind_all, of knd] unfolding list_ex_iff .

lemma distinct_schema: "distinct (map fst schema)"
  by code_simp

lemma coords_not_suffix_all:
  "list_all (\<lambda>knd. list_all (\<lambda>name. \<not> suffix_search knd name) mesh_coords)
     [Node, Corner, Link, Face, Patch, Cell]"
  by code_simp

lemma coords_not_suffix: "name \<in> set mesh_coords \<Longrightarrow> \<not> suffix_search knd name"
  using all_kinds [OF coords_not_suffix_all, of knd] unfolding list_all_iff by (rule bspec)

lemma identity_names_all:
  "list_all (\<lambda>knd. list_all (\<lambda>name.
     \<not> suffix_search knd name \<and> \<not> prefix_search knd name \<and>
     name \<noteq> ''x_of_'' @ kind_name knd \<and> name \<noteq> ''y_of_'' @ kind_name knd \<and>
     (name = kind_name knd \<longrightarrow> kind_name knd \<in> set mesh_coords)) [''node'', ''corner''])
     [Node, Corner, Link, Face, Patch, Cell]"
  by code_simp

lemma identity_names:
  "name \<in> set [''node'', ''corner''] \<Longrightarrow>
     \<not> suffix_search knd name \<and> \<not> prefix_search knd name \<and>
     name \<noteq> ''x_of_'' @ kind_name knd \<and> name \<noteq> ''y_of_'' @ kind_name knd \<and>
     (name = kind_name knd \<longrightarrow> kind_name knd \<in> set mesh_coords)"
  using all_kinds [OF identity_names_all, of knd] unfolding list_all_iff by (rule bspec)

lemma coord_names_distinct_all:
  "list_all (\<lambda>knd. distinct [''x_of_'' @ kind_name knd, ''y_of_'' @ kind_name knd, kind_name knd])
     [Node, Corner, Link, Face, Patch, Cell]"
  by code_simp

lemma coord_names_distinct:
  "distinct [''x_of_'' @ kind_name knd, ''y_of_'' @ kind_name knd, kind_name knd]"
  by (rule all_kinds [OF coord_names_distinct_all])

lemma coord_names_in_all:
  "list_all (\<lambda>knd. kind_name knd \<in> set mesh_coords \<longrightarrow>
      ''x_of_'' @ kind_name knd \<in> set mesh_coords \<and> ''y_of_'' @ kind_name knd \<in> set mesh_coords)
     [Node, Corner, Link, Face, Patch, Cell]"
  by code_simp

lemma coord_names_in:
  "kind_name knd \<in> set mesh_coords \<Longrightarrow>
      ''x_of_'' @ kind_name knd \<in> set mesh_coords \<and> ''y_of_'' @ kind_name knd \<in> set mesh_coords"
  by (rule all_kinds [OF coord_names_in_all, of knd, rule_format])

subsection \<open>The keep mask and the kept rows\<close>

lemma set_false_valid:
  "\<forall>i\<in>set ids. 0 \<le> i \<and> i < int (length m) \<Longrightarrow>
   set_false m ids = Inr (map (\<lambda>j. m ! j \<and> int j \<notin> set ids) [0..<length m])"
proof (induction ids arbitrary: m)
  case Nil
  then show ?case by (simp add: map_nth)
next
  case (Cons i ids)
  then have i: "0 \<le> i" "i < int (length m)" by simp_all
  then have np: "np_index (length m) i = Some (nat i)" by (simp add: np_index_def)
  have "set_false (m[nat i := False]) ids
          = Inr (map (\<lambda>j. m[nat i := False] ! j \<and> int j \<notin> set ids) [0..<length (m[nat i := False])])"
    using Cons.prems by (intro Cons.IH) simp
  moreover have "map (\<lambda>j. m[nat i := False] ! j \<and> int j \<notin> set ids) [0..<length m]
                   = map (\<lambda>j. m ! j \<and> int j \<notin> set (i # ids)) [0..<length m]"
    using i by (intro map_cong) (auto simp: nth_list_update)
  ultimately show ?case by (simp add: np)
qed

lemma keep_mask_valid:
  assumes "\<forall>i\<in>set ids. 0 \<le> i \<and> i < int n"
  shows "set_false (replicate n True) (sort ids) = Inr (map (\<lambda>j. int j \<notin> set ids) [0..<n])"
proof -
  have "set_false (replicate n True) (sort ids)
          = Inr (map (\<lambda>j. replicate n True ! j \<and> int j \<notin> set (sort ids)) [0..<length (replicate n True)])"
    using assms by (intro set_false_valid) simp
  moreover have "map (\<lambda>j. replicate n True ! j \<and> int j \<notin> set (sort ids)) [0..<n]
                   = map (\<lambda>j. int j \<notin> set ids) [0..<n]"
    by (intro map_cong) auto
  ultimately show ?thesis by simp
qed

lemma set_false_length: "set_false m ids = Inr keep \<Longrightarrow> length keep = length m"
  by (induction ids arbitrary: m) (auto split: option.splits)

lemma length_compress:
  "length keep = length xs \<Longrightarrow> length (compress keep xs) = length (filter id keep)"
proof (induction keep xs rule: list_induct2)
  case Nil
  then show ?case by (simp add: compress_def)
next
  case (Cons k keep x xs)
  then show ?case by (simp add: compress_def)
qed

lemma len_compress_rows:
  "length keep = len a \<Longrightarrow> len (compress_rows keep a) = length (filter id keep)"
  by (cases a) (simp_all add: length_compress)

lemma shape_compress_rows:
  "length keep = len a \<Longrightarrow> shape (compress_rows keep a) = length (filter id keep) # tl (shape a)"
  by (cases a) (simp_all add: length_compress)

lemma len_hd_shape: "len a = hd (shape a)"
  by (cases a) simp_all

lemma shape_map_entries: "shape (map_entries f g a) = shape a"
  by (cases a) simp_all

lemma len_map_entries: "len (map_entries f g a) = len a"
  by (cases a) simp_all

lemma count_kept:
  assumes "\<forall>i\<in>set ids. 0 \<le> i \<and> i < int n"
  shows "length (filter id (map (\<lambda>j. int j \<notin> set ids) [0..<n])) = n - card (set ids)"
proof -
  have "length (filter id (map (\<lambda>j. int j \<notin> set ids) [0..<n]))
          = length (filter (\<lambda>j. int j \<notin> set ids) [0..<n])"
    by (simp add: filter_map comp_def)
  also have "\<dots> = card (set (filter (\<lambda>j. int j \<notin> set ids) [0..<n]))"
    by (rule distinct_card [symmetric]) simp
  also have "set (filter (\<lambda>j. int j \<notin> set ids) [0..<n]) = {j \<in> {0..<n}. int j \<notin> set ids}"
    by auto
  also have "{j \<in> {0..<n}. int j \<notin> set ids} = {0..<n} - nat ` set ids"
    using assms by (auto simp: image_iff) (metis nat_int)
  also have "card ({0..<n} - nat ` set ids) = card {0..<n} - card (nat ` set ids)"
    using assms by (intro card_Diff_subset) (auto simp: nat_less_iff)
  also have "card (nat ` set ids) = card (set ids)"
    using assms by (intro card_image inj_onI) (auto simp: nat_eq_iff)
  finally show ?thesis by (simp add: comp_def id_def)
qed

lemma compress_nths:
  "length keep = length xs \<Longrightarrow> compress keep xs = nths xs {j. j < length keep \<and> keep ! j}"
proof (induction keep xs rule: list_induct2)
  case Nil
  then show ?case by (simp add: compress_def)
next
  case (Cons k keep x xs)
  have "{j. Suc j < Suc (length keep) \<and> (k # keep) ! Suc j} = {j. j < length keep \<and> keep ! j}"
    by auto
  with Cons show ?case
    by (auto simp: compress_def nths_Cons)
qed

subsection \<open>Consistent sizes\<close>

lemma zip_map_same: "(d, n) \<in> set (zip xs (map f xs)) \<Longrightarrow> n = f d"
  by (induction xs) auto

lemma in_dim_sizes:
  "(d, n) \<in> set (dim_sizes ds) \<longleftrightarrow>
     (\<exists>name v. (name, v) \<in> set (variables ds) \<and> (d, n) \<in> set (zip (dims v) (shape (vals v))))"
  by (auto simp: dim_sizes_def var_dim_sizes_def)

lemma sized_dim_sizes:
  assumes "\<forall>(name, v)\<in>set (variables ds). shape (vals v) = map S (dims v)"
    and "(d, n) \<in> set (dim_sizes ds)"
  shows "n = S d"
proof -
  from assms(2) obtain name v where v: "(name, v) \<in> set (variables ds)"
    and z: "(d, n) \<in> set (zip (dims v) (shape (vals v)))"
    by (auto simp: in_dim_sizes)
  from assms(1) v have "shape (vals v) = map S (dims v)" by auto
  with z show ?thesis by (simp add: zip_map_same)
qed

lemma sized_consistent:
  assumes "\<forall>(name, v)\<in>set (variables ds). shape (vals v) = map S (dims v)"
  shows "consistent ds"
proof -
  have "length (dims v) = length (shape (vals v))" if "(name, v) \<in> set (variables ds)" for name v
  proof -
    from assms that have "shape (vals v) = map S (dims v)" by auto
    then show ?thesis by simp
  qed
  moreover have "n = n'" if "(d, n) \<in> set (dim_sizes ds)" "(d, n') \<in> set (dim_sizes ds)" for d n n'
    using sized_dim_sizes [OF assms that(1)] sized_dim_sizes [OF assms that(2)] by simp
  ultimately show ?thesis
    unfolding consistent_def list_all_iff by auto
qed

lemma sized_ds_dims:
  assumes s: "\<forall>(name, v)\<in>set (variables ds). shape (vals v) = map S (dims v)"
    and v: "(name, v) \<in> set (variables ds)" and d: "d \<in> set (dims v)"
  shows "ds_dims ds d = Some (S d)"
proof -
  from s v have sh: "shape (vals v) = map S (dims v)" by auto
  from d obtain k where k: "k < length (dims v)" "dims v ! k = d" by (auto simp: in_set_conv_nth)
  with sh have "(d, S d) \<in> set (zip (dims v) (shape (vals v)))"
    by (auto simp: set_zip intro!: exI [of _ k])
  with v have "(d, S d) \<in> set (dim_sizes ds)" by (auto simp: in_dim_sizes)
  then obtain m where m: "map_of (dim_sizes ds) d = Some m"
    by (cases "map_of (dim_sizes ds) d") (auto simp: map_of_eq_None_iff image_iff)
  then have "(d, m) \<in> set (dim_sizes ds)" by (rule map_of_SomeD)
  from sized_dim_sizes [OF s this] m show ?thesis by (simp add: ds_dims_def)
qed

lemma consistent_sized:
  assumes c: "consistent ds" and v: "(name, v) \<in> set (variables ds)"
  shows "shape (vals v) = map (\<lambda>d. the (ds_dims ds d)) (dims v)"
proof (rule nth_equalityI)
  from c v show l: "length (shape (vals v)) = length (map (\<lambda>d. the (ds_dims ds d)) (dims v))"
    unfolding consistent_def list_all_iff by auto
  fix k assume "k < length (shape (vals v))"
  with l have k: "k < length (dims v)" "k < length (shape (vals v))" by simp_all
  then have "(dims v ! k, shape (vals v) ! k) \<in> set (zip (dims v) (shape (vals v)))"
    by (auto simp: set_zip)
  with v have in1: "(dims v ! k, shape (vals v) ! k) \<in> set (dim_sizes ds)"
    by (auto simp: in_dim_sizes)
  then obtain m where m: "map_of (dim_sizes ds) (dims v ! k) = Some m"
    by (cases "map_of (dim_sizes ds) (dims v ! k)") (auto simp: map_of_eq_None_iff image_iff)
  then have in2: "(dims v ! k, m) \<in> set (dim_sizes ds)" by (rule map_of_SomeD)
  from c in1 in2 have "shape (vals v) ! k = m"
    unfolding consistent_def list_all_iff by auto
  with m k show "shape (vals v) ! k = map (\<lambda>d. the (ds_dims ds d)) (dims v) ! k"
    by (simp add: ds_dims_def)
qed

subsection \<open>The variables after the update\<close>

lemma distinct_foldl_update:
  "distinct (map fst al) \<Longrightarrow> distinct (map fst (foldl (\<lambda>al (k, v). AList.update k v al) al kvs))"
proof (induction kvs arbitrary: al)
  case Nil
  then show ?case by simp
next
  case (Cons kv kvs)
  obtain k v where kv: "kv = (k, v)" by (cases kv)
  from Cons.prems have "distinct (map fst (AList.update k v al))" by (rule distinct_update)
  then show ?case by (simp add: kv Cons.IH)
qed

lemma distinct_filter_names:
  "distinct (map fst vs) \<Longrightarrow> distinct (map fst (filter P vs))"
  by (induction vs) auto

lemma entries_collect_rows:
  assumes "collect_rows knd keep vs = Inr d"
  shows "concat (map da_entries d) =
           map (\<lambda>(name, var). (name, var\<lparr>vals := compress_rows keep (vals var)\<rparr>))
               (filter (\<lambda>(name, var). suffix_search knd name) vs)"
proof -
  have "concat (map da_entries
          (map (\<lambda>(name, var). (name, \<lparr>da_dims = dims var, da_vals = compress_rows keep (vals var),
                                   da_coords = []\<rparr>)) xs))
        = map (\<lambda>(name, var). (name, var\<lparr>vals := compress_rows keep (vals var)\<rparr>)) xs" for xs
    by (induction xs) auto
  with assms show ?thesis by (simp add: collect_rows_Inr_iff)
qed

lemma names_collect_rows:
  assumes "collect_rows knd keep vs = Inr d"
  shows "map fst d = map fst (filter (\<lambda>(name, var). suffix_search knd name) vs)"
proof -
  have "map fst (map (\<lambda>(name, var). (name, \<lparr>da_dims = dims var, da_vals = compress_rows keep (vals var),
                                   da_coords = []\<rparr>)) xs) = map fst xs" for xs :: "(string \<times> variable) list"
    by (induction xs) auto
  with assms show ?thesis by (simp add: collect_rows_Inr_iff)
qed

lemma ds_get_Inr_iff:
  "ds_get ds name = Inr a \<longleftrightarrow> (\<exists>var. map_of (variables ds) name = Some var \<and> vals var = a)"
  by (auto simp: ds_get_def split: option.splits)


lemma candidate_vars:
  assumes dist: "distinct (map fst (variables ds))"
    and dc: "drop_coords knd keep ds = Inr (at_0, mesh1)"
    and cr: "collect_rows knd keep (variables mesh1) = Inr at_1"
    and has: "kind_name knd \<in> set (coords ds) \<Longrightarrow> kind_name knd \<in> fst ` set (variables ds)"
  shows "map_of (foldl (\<lambda>al (k, v). AList.update k v al)
                    (variables (ds_drop (map fst (at_0 @ at_1)) mesh1))
                    (concat (map da_entries (at_0 @ at_1)))) name
           = map_option (kept_var knd keep (kind_name knd \<in> set (coords ds)) name)
               (map_of (variables ds) name)"
    (is "map_of ?vs2 name = ?rhs")
proof -
  let ?at = "kind_name knd"
  let ?X = "''x_of_'' @ kind_name knd"
  let ?Y = "''y_of_'' @ kind_name knd"
  let ?hc = "?at \<in> set (coords ds)"
  let ?E0 = "concat (map da_entries at_0)"
  let ?E1 = "concat (map da_entries at_1)"
  let ?suf = "\<lambda>(name, var :: variable). suffix_search knd name"
  have E: "concat (map da_entries (at_0 @ at_1)) = ?E0 @ ?E1" by simp
  have ne: "?X \<noteq> ?Y" "?X \<noteq> ?at" "?Y \<noteq> ?at"
    using coord_names_distinct [of knd] by auto
  have m1: "variables mesh1 = (if ?hc then filter (\<lambda>(name, v). name \<notin> set [?X, ?Y]) (variables ds)
                               else variables ds)"
    using dc by (auto simp: drop_coords_Inr_iff ds_drop_def split: if_splits)
  have d1: "distinct (map fst (variables mesh1))"
    using dist by (simp add: m1 distinct_filter_names)
  have l1: "map_of (variables mesh1) nm =
              (if ?hc \<and> nm \<in> set [?X, ?Y] then None else map_of (variables ds) nm)" for nm
    by (simp only: m1 map_of_filter_names split: if_splits) auto
  have E1: "?E1 = map (\<lambda>(name, var). (name, var\<lparr>vals := compress_rows keep (vals var)\<rparr>))
                      (filter ?suf (variables mesh1))"
    by (rule entries_collect_rows [OF cr])
  have k1: "map fst ?E1 = map fst (filter ?suf (variables mesh1))"
    unfolding E1 by (induction "variables mesh1") auto
  have dE1: "distinct (map fst ?E1)"
    unfolding k1 using d1 by (rule distinct_filter_names)
  have kE1: "suffix_search knd nm" if "nm \<in> fst ` set ?E1" for nm
    using that keys_collect_rows [OF cr] by blast
  have inE1: "(nm, var\<lparr>vals := compress_rows keep (vals var)\<rparr>) \<in> set ?E1"
    if "map_of (variables mesh1) nm = Some var" "suffix_search knd nm" for nm var
  proof -
    from that(1) have "(nm, var) \<in> set (variables mesh1)" by (rule map_of_SomeD)
    with that(2) have "(nm, var) \<in> set (filter ?suf (variables mesh1))" by simp
    then show ?thesis unfolding E1 by (force simp: image_iff)
  qed
  have kE0: "fst ` set ?E0 = (if ?hc then {?X, ?Y, ?at} else {})"
    using dc by (auto simp: drop_coords_Inr_iff split: if_splits)
  have dE0: "distinct (map fst ?E0)"
    using dc ne by (auto simp: drop_coords_Inr_iff split: if_splits)
  have disj: "fst ` set ?E0 \<inter> fst ` set ?E1 = {}"
  proof -
    have "nm \<notin> fst ` set ?E0" if "nm \<in> fst ` set ?E1" for nm
    proof -
      from suffix_search_not_coord [OF kE1 [OF that]] have "nm \<notin> {?X, ?Y, ?at}" by simp
      then show ?thesis unfolding kE0 by simp
    qed
    then show ?thesis by blast
  qed
  have dE: "distinct (map fst (concat (map da_entries (at_0 @ at_1))))"
    unfolding E using dE0 dE1 disj by simp
  have N: "set (map fst (at_0 @ at_1)) \<subseteq> fst ` set (concat (map da_entries (at_0 @ at_1)))"
    using names_subset_entries [of "at_0 @ at_1"] by (simp only: set_map)
  show ?thesis
  proof (cases "name \<in> fst ` set ?E0")
    case True
    then have "name \<in> (if ?hc then {?X, ?Y, ?at} else {})"
      unfolding kE0 .
    then have hc: ?hc and nm: "name = ?X \<or> name = ?Y \<or> name = ?at"
      by (auto split: if_splits)
    from dc hc obtain xa ya where xa: "ds_get ds ?X = Inr xa" "length keep = len xa"
      and ya: "ds_get ds ?Y = Inr ya" "length keep = len ya"
      and at_0: "at_0 = [(?at, \<lparr>da_dims = [?at],
                         da_vals = Ints1 (map int [0..<len (compress_rows keep xa)]),
                         da_coords = [(?X, \<lparr>dims = [?at], vals = compress_rows keep xa\<rparr>),
                                      (?Y, \<lparr>dims = [?at], vals = compress_rows keep ya\<rparr>)]\<rparr>)]"
      by (auto simp: drop_coords_Inr_iff)
    from xa(1) obtain vx where vx: "map_of (variables ds) ?X = Some vx" "vals vx = xa"
      by (auto simp: ds_get_Inr_iff)
    from ya(1) obtain vy where vy: "map_of (variables ds) ?Y = Some vy" "vals vy = ya"
      by (auto simp: ds_get_Inr_iff)
    from has [OF hc] obtain va where va: "map_of (variables ds) ?at = Some va"
      by (cases "map_of (variables ds) ?at") (auto simp: map_of_eq_None_iff)
    have E0: "?E0 = [(?X, \<lparr>dims = [?at], vals = compress_rows keep xa\<rparr>),
                     (?Y, \<lparr>dims = [?at], vals = compress_rows keep ya\<rparr>),
                     (?at, \<lparr>dims = [?at], vals = Ints1 (map int [0..<length (filter id keep)])\<rparr>)]"
      by (simp add: at_0 len_compress_rows [OF xa(2)])
    from nm consider (x) "name = ?X" | (y) "name = ?Y" | (a) "name = ?at" by blast
    then show ?thesis
    proof cases
      case x
      have "(name, \<lparr>dims = [?at], vals = compress_rows keep xa\<rparr>)
              \<in> set (concat (map da_entries (at_0 @ at_1)))"
        unfolding E by (simp add: E0 x)
      from lookup_foldl_update_in [OF dE this]
      have "map_of ?vs2 name = Some \<lparr>dims = [?at], vals = compress_rows keep xa\<rparr>" .
      moreover have "?rhs = Some \<lparr>dims = [?at], vals = compress_rows keep xa\<rparr>"
        using vx ne hc by (simp add: x kept_var_def)
      ultimately show ?thesis by (simp only:)
    next
      case y
      have "(name, \<lparr>dims = [?at], vals = compress_rows keep ya\<rparr>)
              \<in> set (concat (map da_entries (at_0 @ at_1)))"
        unfolding E by (simp add: E0 y)
      from lookup_foldl_update_in [OF dE this]
      have "map_of ?vs2 name = Some \<lparr>dims = [?at], vals = compress_rows keep ya\<rparr>" .
      moreover have "?rhs = Some \<lparr>dims = [?at], vals = compress_rows keep ya\<rparr>"
        using vy ne hc by (simp add: y kept_var_def)
      ultimately show ?thesis by (simp only:)
    next
      case a
      have "(name, \<lparr>dims = [?at], vals = Ints1 (map int [0..<length (filter id keep)])\<rparr>)
              \<in> set (concat (map da_entries (at_0 @ at_1)))"
        unfolding E by (simp add: E0 a)
      from lookup_foldl_update_in [OF dE this]
      have "map_of ?vs2 name
              = Some \<lparr>dims = [?at], vals = Ints1 (map int [0..<length (filter id keep)])\<rparr>" .
      moreover have "?rhs = Some \<lparr>dims = [?at], vals = Ints1 (map int [0..<length (filter id keep)])\<rparr>"
        using va hc by (simp add: a kept_var_def)
      ultimately show ?thesis by (simp only:)
    qed
  next
    case False
    then have "name \<notin> (if ?hc then {?X, ?Y, ?at} else {})"
      unfolding kE0 .
    then have nc: "\<not> (?hc \<and> (name = ?X \<or> name = ?Y \<or> name = ?at))"
      by (auto split: if_splits)
    then have l1': "map_of (variables mesh1) name = map_of (variables ds) name"
      by (auto simp: l1)
    show ?thesis
    proof (cases "\<exists>var. map_of (variables ds) name = Some var \<and> suffix_search knd name")
      case True
      then obtain var where var: "map_of (variables ds) name = Some var"
        and suf: "suffix_search knd name" by blast
      from inE1 [of name var] var suf l1'
      have "(name, var\<lparr>vals := compress_rows keep (vals var)\<rparr>)
              \<in> set (concat (map da_entries (at_0 @ at_1)))"
        unfolding E by simp
      from lookup_foldl_update_in [OF dE this]
      have "map_of ?vs2 name = Some (var\<lparr>vals := compress_rows keep (vals var)\<rparr>)" .
      moreover have "?rhs = Some (var\<lparr>vals := compress_rows keep (vals var)\<rparr>)"
        using var suf nc suffix_search_not_coord [OF suf] by (simp add: kept_var_def)
      ultimately show ?thesis by (simp only:)
    next
      case nosuf: False
      have "name \<notin> fst ` set ?E1"
      proof
        assume "name \<in> fst ` set ?E1"
        then have suf: "suffix_search knd name" by (rule kE1)
        from \<open>name \<in> fst ` set ?E1\<close> have "name \<in> fst ` set (filter ?suf (variables mesh1))"
          using k1 by (metis set_map)
        then obtain var where "(name, var) \<in> set (variables mesh1)" by auto
        with d1 have "map_of (variables mesh1) name = Some var" by simp
        with l1' suf nosuf show False by simp
      qed
      with False have notin: "name \<notin> fst ` set (concat (map da_entries (at_0 @ at_1)))"
        unfolding E by (simp only: set_append image_Un Un_iff) blast
      with N have notin': "name \<notin> set (map fst (at_0 @ at_1))" by blast
      have "map_of ?vs2 name = map_of (variables (ds_drop (map fst (at_0 @ at_1)) mesh1)) name"
        by (rule lookup_foldl_update_notin [OF notin])
      also have "\<dots> = map_of (variables mesh1) name"
        using notin' by (simp only: lookup_ds_drop if_False)
      also have "\<dots> = map_of (variables ds) name" by (rule l1')
      also have "\<dots> = ?rhs"
      proof (cases "map_of (variables ds) name")
        case None
        then show ?thesis by simp
      next
        case (Some var)
        with nosuf have "\<not> suffix_search knd name" by simp
        with nc Some show ?thesis by (auto simp: kept_var_def)
      qed
      finally show ?thesis .
    qed
  qed
qed

subsection \<open>Well-formed meshes\<close>

lemma map_of_name_dims:
  "map_of (map (\<lambda>(name, v). (name, dims v)) vs) name = map_option dims (map_of vs name)"
  by (induction vs) auto

lemma wf_var_schema:
  "wf_mesh ds \<Longrightarrow> (name, v) \<in> set (variables ds) \<Longrightarrow> (name, dims v) \<in> set schema"
  unfolding wf_mesh_def by force

lemma wf_lookup_schema:
  assumes "wf_mesh ds"
  shows "map_option dims (map_of (variables ds) name) = map_of schema name"
proof -
  have d: "distinct (map fst (map (\<lambda>(name, v). (name, dims v)) (variables ds)))"
    using assms by (simp add: wf_mesh_def comp_def split_def)
  have "set (map (\<lambda>(name, v). (name, dims v)) (variables ds)) = set schema"
    using assms by (simp add: wf_mesh_def)
  with d distinct_schema have "map_of (map (\<lambda>(name, v). (name, dims v)) (variables ds)) = map_of schema"
    by (simp add: map_of_inject_set)
  then show ?thesis by (simp add: map_of_name_dims [symmetric])
qed

lemma wf_schema_var:
  assumes "wf_mesh ds" and "map_of schema name = Some d"
  shows "\<exists>v. map_of (variables ds) name = Some v \<and> dims v = d"
  using wf_lookup_schema [OF assms(1), of name] assms(2) by auto

lemma kept_var_dims:
  assumes "(name, dims v) \<in> set schema"
  shows "dims (kept_var knd keep (kind_name knd \<in> set mesh_coords) name v) = dims v"
proof -
  have "dims v = [kind_name knd]"
    if "kind_name knd \<in> set mesh_coords"
       "name = kind_name knd \<or> name = ''x_of_'' @ kind_name knd \<or> name = ''y_of_'' @ kind_name knd"
  proof -
    from schema_coords [OF that(1)] that(2) have "map_of schema name = Some [kind_name knd]"
      by auto
    moreover from assms distinct_schema have "map_of schema name = Some (dims v)" by simp
    ultimately show ?thesis by simp
  qed
  then show ?thesis by (auto simp: kept_var_def)
qed

lemma kept_var_shape:
  assumes sch: "(name, dims v) \<in> set schema"
    and sh: "shape (vals v) = map S (dims v)"
    and n: "S (kind_name knd) = length keep"
  shows "shape (vals (kept_var knd keep (kind_name knd \<in> set mesh_coords) name v))
           = map (S(kind_name knd := length (filter id keep))) (dims v)"
proof -
  let ?at = "kind_name knd"
  let ?S' = "S(?at := length (filter id keep))"
  have has: "?at \<in> set (dims v) \<longleftrightarrow>
         suffix_search knd name \<or>
         (?at \<in> set mesh_coords \<and>
          (name = ?at \<or> name = ''x_of_'' @ ?at \<or> name = ''y_of_'' @ ?at))"
    by (rule schema_kind(1) [OF sch])
  have cut: "shape (compress_rows keep (vals v)) = map ?S' (dims v)" if at: "?at \<in> set (dims v)"
  proof -
    from schema_kind(2) [OF sch at] have hd: "hd (dims v) = ?at" and tl: "?at \<notin> set (tl (dims v))"
      by simp_all
    from at have ne: "dims v \<noteq> []" by auto
    with hd have d: "dims v = ?at # tl (dims v)" by (cases "dims v") simp_all
    have "len (vals v) = hd (shape (vals v))" by (rule len_hd_shape)
    also have "\<dots> = S ?at" using sh ne hd by (simp add: hd_map)
    finally have l: "length keep = len (vals v)" using n by simp
    have "shape (compress_rows keep (vals v)) = length (filter id keep) # tl (shape (vals v))"
      by (rule shape_compress_rows [OF l])
    also have "tl (shape (vals v)) = map S (tl (dims v))" using sh by (simp add: map_tl)
    also have "map S (tl (dims v)) = map ?S' (tl (dims v))" using tl by (intro map_cong) auto
    also have "length (filter id keep) # map ?S' (tl (dims v)) = map ?S' (?at # tl (dims v))"
      by simp
    finally show ?thesis using d by simp
  qed
  have same: "shape (vals v) = map ?S' (dims v)" if "?at \<notin> set (dims v)"
    using that sh by (simp cong: map_cong)
  show ?thesis
  proof (cases "?at \<in> set mesh_coords \<and> name = ?at")
    case True
    then have "dims v = [?at]" using kept_var_dims [OF sch, of knd keep] by (simp add: kept_var_def)
    with True show ?thesis by (simp add: kept_var_def)
  next
    case False
    show ?thesis
    proof (cases "?at \<in> set (dims v)")
      case True
      with has False have "kept_var knd keep (?at \<in> set mesh_coords) name v
                              = v\<lparr>vals := compress_rows keep (vals v)\<rparr>
                            \<or> kept_var knd keep (?at \<in> set mesh_coords) name v
                              = \<lparr>dims = [?at], vals = compress_rows keep (vals v)\<rparr>"
        by (auto simp: kept_var_def)
      then show ?thesis using cut [OF True] by auto
    next
      case nin: False
      with has False have "kept_var knd keep (?at \<in> set mesh_coords) name v = v"
        by (auto simp: kept_var_def)
      then show ?thesis using same [OF nin] by simp
    qed
  qed
qed

lemma wf_len:
  assumes wf: "wf_mesh ds" and n: "ds_dims ds (kind_name knd) = Some n"
    and v: "(name, v) \<in> set (variables ds)" and at: "kind_name knd \<in> set (dims v)"
  shows "len (vals v) = n"
proof -
  from wf have c: "consistent ds" by (simp add: wf_mesh_def)
  from schema_kind(2) [OF wf_var_schema [OF wf v] at] have hd: "hd (dims v) = kind_name knd"
    by simp
  from at have ne: "dims v \<noteq> []" by auto
  have "len (vals v) = hd (shape (vals v))" by (rule len_hd_shape)
  also have "\<dots> = the (ds_dims ds (hd (dims v)))"
    using consistent_sized [OF c v] ne by (simp add: hd_map)
  finally show ?thesis using hd n by simp
qed

lemma drop_coords_cases:
  assumes "drop_coords knd keep ds = Inr (at_0, mesh1)"
  obtains (with_coords) xa ya where
      "kind_name knd \<in> set (coords ds)"
      "ds_get ds (''x_of_'' @ kind_name knd) = Inr xa" "length keep = len xa"
      "ds_get ds (''y_of_'' @ kind_name knd) = Inr ya" "length keep = len ya"
      "at_0 = [(kind_name knd,
                \<lparr>da_dims = [kind_name knd],
                 da_vals = Ints1 (map int [0..<len (compress_rows keep xa)]),
                 da_coords =
                   [(''x_of_'' @ kind_name knd, \<lparr>dims = [kind_name knd], vals = compress_rows keep xa\<rparr>),
                    (''y_of_'' @ kind_name knd, \<lparr>dims = [kind_name knd], vals = compress_rows keep ya\<rparr>)]\<rparr>)]"
      "mesh1 = ds_drop [''x_of_'' @ kind_name knd, ''y_of_'' @ kind_name knd] ds"
  | (without) "kind_name knd \<notin> set (coords ds)" "at_0 = []" "mesh1 = ds"
proof (cases "kind_name knd \<in> set (coords ds)")
  case True
  with assms show ?thesis
    by (simp only: drop_coords_Inr_iff if_True) (elim exE conjE, rule with_coords)
next
  case False
  with assms show ?thesis
    by (simp only: drop_coords_Inr_iff if_False) (elim conjE, rule without)
qed

lemma coords_after:
  assumes dc: "drop_coords knd keep ds = Inr (at_0, mesh1)"
    and cr: "collect_rows knd keep (variables mesh1) = Inr at_1"
    and co: "set (coords ds) = set mesh_coords"
    and nd: "\<And>name var. (name, var) \<in> set (variables ds) \<Longrightarrow> suffix_search knd name
                \<Longrightarrow> dims var \<noteq> [name]"
  shows "set (remdups (coords (ds_drop (map fst (at_0 @ at_1)) mesh1)
                        @ concat (map da_coord_names (at_0 @ at_1)))) = set mesh_coords"
proof -
  define X where "X = ''x_of_'' @ kind_name knd"
  define Y where "Y = ''y_of_'' @ kind_name knd"
  define A where "A = kind_name knd"
  have n1: "\<not> suffix_search knd c" if "c \<in> set mesh_coords" for c
    by (rule coords_not_suffix [OF that])
  have names1: "suffix_search knd nm" if "nm \<in> fst ` set at_1" for nm
    using that cr by (auto simp: collect_rows_Inr_iff)
  have cn1: "concat (map da_coord_names at_1) = []"
  proof -
    have "da_coord_names x = []" if "x \<in> set at_1" for x
    proof -
      from that cr obtain name var where x: "x = (name, \<lparr>da_dims = dims var,
            da_vals = compress_rows keep (vals var), da_coords = []\<rparr>)"
        and m: "(name, var) \<in> set (variables mesh1)" and s: "suffix_search knd name"
        by (auto simp: collect_rows_Inr_iff)
      from dc have "set (variables mesh1) \<subseteq> set (variables ds)"
        by (cases rule: drop_coords_cases) (auto simp: ds_drop_def)
      with nd [OF _ s] m have "dims var \<noteq> [name]" by blast
      then show ?thesis by (simp add: x)
    qed
    then show ?thesis by (induction at_1) auto
  qed
  have disj: "set mesh_coords \<inter> fst ` set at_1 = {}"
    using n1 names1 by blast
  have gen: "set (remdups (coords (ds_drop (map fst (at_0 @ at_1)) mesh1)
                        @ concat (map da_coord_names (at_0 @ at_1))))
          = (set (coords mesh1) - (fst ` set at_0 \<union> fst ` set at_1))
              \<union> set (concat (map da_coord_names at_0))"
    by (auto simp: ds_drop_def cn1)
  have "(set (coords mesh1) - (fst ` set at_0 \<union> fst ` set at_1))
              \<union> set (concat (map da_coord_names at_0)) = set mesh_coords"
    using dc
  proof (cases rule: drop_coords_cases)
    case (with_coords xa ya)
    from with_coords(1) co have hc: "A \<in> set mesh_coords" by (simp add: A_def)
    from coord_names_in [of knd] hc have in2: "X \<in> set mesh_coords" "Y \<in> set mesh_coords"
      by (simp_all add: X_def Y_def A_def)
    have c1: "set (coords mesh1) = set mesh_coords - {X, Y}"
      unfolding with_coords(7) X_def [symmetric] Y_def [symmetric]
      using co by (auto simp: ds_drop_def)
    have n0: "fst ` set at_0 = {A}"
      unfolding with_coords(6) by (simp add: A_def)
    have cn0: "set (concat (map da_coord_names at_0)) = {X, Y, A}"
      unfolding with_coords(6) X_def Y_def A_def by auto
    show ?thesis unfolding c1 n0 cn0 using hc in2 disj by auto
  next
    case without
    have cn0: "set (concat (map da_coord_names at_0)) = {}" "fst ` set at_0 = {}"
      unfolding without(2) by simp_all
    have c1: "set (coords mesh1) = set mesh_coords" unfolding without(3) by (rule co)
    show ?thesis unfolding cn0 c1 using disj by auto
  qed
  with gen show ?thesis by (simp only:)
qed

text \<open>On a mesh state, \<^verbatim>\<open>drop_element\<close> with ids inside the index space of the kind
  returns, the result is a mesh state again, and every variable of the result is the
  old one cut down and renumbered.\<close>

lemma drop_element_wf:
  assumes wf: "wf_mesh (mesh self)"
    and n: "ds_dims (mesh self) (kind_name knd) = Some n"
    and valid: "\<forall>i\<in>set ids. 0 \<le> i \<and> i < int n"
  shows "\<exists>self'. drop_element ids knd self = Inr self'
           \<and> wf_mesh (mesh self')
           \<and> perimeter_links self' = perimeter_links self
           \<and> (\<forall>name. map_of (variables (mesh self')) name
                  = map_option (dropped_var knd ids n name) (map_of (variables (mesh self)) name))
           \<and> ds_dims (mesh self') (kind_name knd) = Some (n - card (set ids))"
proof -
  let ?ds = "mesh self"
  let ?at = "kind_name knd"
  let ?X = "''x_of_'' @ kind_name knd"
  let ?Y = "''y_of_'' @ kind_name knd"
  define keep where "keep = map (\<lambda>j. int j \<notin> set ids) [0..<n]"
  define S where "S = (\<lambda>d. the (ds_dims ?ds d))"
  define n' where "n' = length (filter id keep)"
  define S' where "S' = S(?at := n')"
  from wf have dist: "distinct (map fst (variables ?ds))" and cons: "consistent ?ds"
    and co: "set (coords ?ds) = set mesh_coords"
    and ident: "list_all (\<lambda>(name, v). name \<in> set [''node'', ''corner'']
                  \<longrightarrow> vals v = Ints1 (map int [0..<len (vals v)])) (variables ?ds)"
    by (simp_all add: wf_mesh_def)
  have hc: "?at \<in> set (coords ?ds) \<longleftrightarrow> ?at \<in> set mesh_coords" by (simp add: co)
  have km: "set_false (replicate n True) (sort ids) = Inr keep"
    unfolding keep_def by (rule keep_mask_valid [OF valid])
  have lk: "length keep = n" by (simp add: keep_def)
  have Sat: "S ?at = length keep" by (simp add: S_def n lk)
  have sized: "shape (vals v) = map S (dims v)" if "(name, v) \<in> set (variables ?ds)" for name v
    unfolding S_def by (rule consistent_sized [OF cons that])
  have lenv: "length keep = len (vals v)"
    if "(name, v) \<in> set (variables ?ds)" "?at \<in> set (dims v)" for name v
    using wf_len [OF wf n that] lk by simp
  \<comment> \<open>the coordinates\<close>
  have has: "?at \<in> fst ` set (variables ?ds)" if "?at \<in> set (coords ?ds)"
  proof -
    from that hc schema_coords [of knd] have "map_of schema ?at = Some [?at]" by simp
    from wf_schema_var [OF wf this] obtain v where "map_of (variables ?ds) ?at = Some v" by blast
    then have "(?at, v) \<in> set (variables ?ds)" by (rule map_of_SomeD)
    then show ?thesis by (rule image_eqI [rotated]) simp
  qed
  have "\<exists>p. drop_coords knd keep ?ds = Inr p"
  proof (cases "?at \<in> set (coords ?ds)")
    case True
    with hc schema_coords [of knd] have sx: "map_of schema ?X = Some [?at]"
      and sy: "map_of schema ?Y = Some [?at]" by simp_all
    from wf_schema_var [OF wf sx] obtain vx where vx: "map_of (variables ?ds) ?X = Some vx"
      "dims vx = [?at]" by blast
    from wf_schema_var [OF wf sy] obtain vy where vy: "map_of (variables ?ds) ?Y = Some vy"
      "dims vy = [?at]" by blast
    from vx have lx: "length keep = len (vals vx)"
      by (intro lenv [of ?X]) (auto dest: map_of_SomeD)
    from vy have ly: "length keep = len (vals vy)"
      by (intro lenv [of ?Y]) (auto dest: map_of_SomeD)
    have gx: "ds_get ?ds ?X = Inr (vals vx)" using vx(1) by (simp only: ds_get_Inr_iff) blast
    have gy: "ds_get ?ds ?Y = Inr (vals vy)" using vy(1) by (simp only: ds_get_Inr_iff) blast
    show ?thesis
      unfolding drop_coords_def mask_rows_def
      by (simp only: True if_True gx gy ebind_Inr lx [symmetric] ly [symmetric] refl) blast
  next
    case False
    then show ?thesis unfolding drop_coords_def by (simp only: if_False) blast
  qed
  then obtain at_0 mesh1 where dc: "drop_coords knd keep ?ds = Inr (at_0, mesh1)"
    by (metis surj_pair)
  have sub1: "set (variables mesh1) \<subseteq> set (variables ?ds)"
    using dc by (cases rule: drop_coords_cases) (auto simp: ds_drop_def)
  \<comment> \<open>the rows\<close>
  have suf_at: "?at \<in> set (dims v)"
    if "(name, v) \<in> set (variables ?ds)" "suffix_search knd name" for name v
    using schema_kind(1) [OF wf_var_schema [OF wf that(1)], of knd] that(2) by simp
  define at_1 where "at_1 = map (\<lambda>(name, var). (name, \<lparr>da_dims = dims var,
        da_vals = compress_rows keep (vals var), da_coords = []\<rparr>))
      (filter (\<lambda>(name, var). suffix_search knd name) (variables mesh1))"
  have cr: "collect_rows knd keep (variables mesh1) = Inr at_1"
    unfolding collect_rows_Inr_iff at_1_def using sub1 lenv suf_at by blast
  \<comment> \<open>the update\<close>
  define vs2 where "vs2 = foldl (\<lambda>al (k, v). AList.update k v al)
      (variables (ds_drop (map fst (at_0 @ at_1)) mesh1)) (concat (map da_entries (at_0 @ at_1)))"
  define ds2 where "ds2 = \<lparr>coords = remdups (coords (ds_drop (map fst (at_0 @ at_1)) mesh1)
                                           @ concat (map da_coord_names (at_0 @ at_1))),
                           variables = vs2\<rparr>"
  have l2: "map_of vs2 name = map_option (kept_var knd keep (?at \<in> set mesh_coords) name)
                                (map_of (variables ?ds) name)" for name
    unfolding vs2_def hc [symmetric] by (rule candidate_vars [OF dist dc cr has])
  have d1: "distinct (map fst (variables mesh1))"
    using dc dist by (cases rule: drop_coords_cases) (auto simp: ds_drop_def distinct_filter_names)
  have d2: "distinct (map fst vs2)"
    unfolding vs2_def ds_drop_def using d1
    by (intro distinct_foldl_update) (simp add: distinct_filter_names)
  have el2: "\<exists>v. (name, v) \<in> set (variables ?ds) \<and> v' = kept_var knd keep (?at \<in> set mesh_coords) name v"
    if "(name, v') \<in> set vs2" for name v'
  proof -
    from that d2 have "map_of vs2 name = Some v'" by simp
    then obtain v where "map_of (variables ?ds) name = Some v"
      and "v' = kept_var knd keep (?at \<in> set mesh_coords) name v"
      unfolding l2 by auto
    then show ?thesis by (auto dest: map_of_SomeD)
  qed
  have sized2: "shape (vals v') = map S' (dims v')" if "(name, v') \<in> set vs2" for name v'
  proof -
    from el2 [OF that] obtain v where v: "(name, v) \<in> set (variables ?ds)"
      and v': "v' = kept_var knd keep (?at \<in> set mesh_coords) name v" by blast
    from wf_var_schema [OF wf v] have sch: "(name, dims v) \<in> set schema" .
    show ?thesis
      unfolding v' S'_def n'_def kept_var_dims [OF sch]
      by (rule kept_var_shape [OF sch sized [OF v] Sat])
  qed
  have cons2: "consistent ds2"
    by (rule sized_consistent [of _ S']) (auto simp: ds2_def sized2)
  have up: "ds_update (at_0 @ at_1) (ds_drop (map fst (at_0 @ at_1)) mesh1) = Inr ds2"
    unfolding ds_update_Inr_iff using cons2 by (simp add: ds2_def vs2_def)
  define self' where
    "self' = self\<lparr>mesh := ds2\<lparr>variables := renumber_vars knd (sort ids) (variables ds2)\<rparr>\<rparr>"
  have ok: "drop_element ids knd self = Inr self'"
    unfolding drop_element_def Let_def self'_def
    by (simp only: n option.case km ebind_Inr dc cr up prod.case)
  \<comment> \<open>the result\<close>
  have vars': "variables (mesh self') = renumber_vars knd (sort ids) vs2"
    by (simp add: self'_def ds2_def)
  have l': "map_of (variables (mesh self')) name
              = map_option (dropped_var knd ids n name) (map_of (variables ?ds) name)" for name
    unfolding vars' map_of_renumber_vars l2
    by (cases "map_of (variables ?ds) name") (simp_all add: dropped_var_def keep_def Let_def)
  have d': "distinct (map fst (variables (mesh self')))"
    unfolding vars' names_renumber_vars by (rule d2)
  have el': "\<exists>v. (name, v) \<in> set (variables ?ds) \<and> v' = dropped_var knd ids n name v"
    if "(name, v') \<in> set (variables (mesh self'))" for name v'
  proof -
    from that d' have "map_of (variables (mesh self')) name = Some v'" by simp
    then obtain v where "map_of (variables ?ds) name = Some v"
      and "v' = dropped_var knd ids n name v"
      unfolding l' by auto
    then show ?thesis by (auto dest: map_of_SomeD)
  qed
  have dv_dims: "dims (dropped_var knd ids n name v) = dims v"
    if "(name, v) \<in> set (variables ?ds)" for name v
    using kept_var_dims [OF wf_var_schema [OF wf that], of knd]
    by (simp add: dropped_var_def Let_def)
  have dv_shape: "shape (vals (dropped_var knd ids n name v)) = map S' (dims v)"
    if "(name, v) \<in> set (variables ?ds)" for name v
    using kept_var_shape [OF wf_var_schema [OF wf that] sized [OF that] Sat]
    by (simp add: dropped_var_def Let_def shape_map_entries S'_def n'_def keep_def)
  have sized': "shape (vals v') = map S' (dims v')"
    if "(name, v') \<in> set (variables (mesh self'))" for name v'
    using el' [OF that] dv_dims dv_shape by auto
  have cons': "consistent (mesh self')"
    by (rule sized_consistent [of _ S']) (use sized' in auto)
  have sch': "set (map (\<lambda>(name, v). (name, dims v)) (variables (mesh self'))) = set schema"
  proof -
    have "map_option dims (map_of (variables (mesh self')) name) = map_of schema name" for name
    proof (cases "map_of (variables ?ds) name")
      case None
      with wf_lookup_schema [OF wf, of name] show ?thesis by (simp add: l')
    next
      case (Some v)
      then have "(name, v) \<in> set (variables ?ds)" by (rule map_of_SomeD)
      from dv_dims [OF this] Some wf_lookup_schema [OF wf, of name] show ?thesis
        by (simp add: l')
    qed
    then have "map_of (map (\<lambda>(name, v). (name, dims v)) (variables (mesh self'))) = map_of schema"
      by (intro ext) (simp add: map_of_name_dims)
    moreover have "distinct (map fst (map (\<lambda>(name, v). (name, dims v)) (variables (mesh self'))))"
      using d' by (simp add: comp_def split_def)
    ultimately show ?thesis using distinct_schema by (simp only: map_of_inject_set)
  qed
  have co': "set (coords (mesh self')) = set mesh_coords"
  proof -
    have nd: "dims var \<noteq> [name]"
      if "(name, var) \<in> set (variables ?ds)" "suffix_search knd name" for name var
      using schema_kind(4) [OF wf_var_schema [OF wf that(1)] that(2)] .
    have "coords (mesh self') = remdups (coords (ds_drop (map fst (at_0 @ at_1)) mesh1)
                                           @ concat (map da_coord_names (at_0 @ at_1)))"
      by (simp add: self'_def ds2_def)
    then show ?thesis by (simp only: coords_after [OF dc cr co nd])
  qed
  have ident': "list_all (\<lambda>(name, v). name \<in> set [''node'', ''corner'']
                  \<longrightarrow> vals v = Ints1 (map int [0..<len (vals v)])) (variables (mesh self'))"
  proof -
    have "vals v' = Ints1 (map int [0..<len (vals v')])"
      if m: "(name, v') \<in> set (variables (mesh self'))" and nm: "name \<in> set [''node'', ''corner'']"
      for name v'
    proof -
      from el' [OF m] obtain v where v: "(name, v) \<in> set (variables ?ds)"
        and v': "v' = dropped_var knd ids n name v" by blast
      from identity_names [OF nm, of knd] have f: "\<not> suffix_search knd name"
        "\<not> prefix_search knd name" "name \<noteq> ?X" "name \<noteq> ?Y"
        "name = ?at \<longrightarrow> ?at \<in> set mesh_coords" by simp_all
      show ?thesis
      proof (cases "name = ?at")
        case True
        with f(5) have "?at \<in> set mesh_coords" by simp
        with True f(2) show ?thesis by (simp add: v' dropped_var_def kept_var_def Let_def)
      next
        case False
        with f have "v' = v" by (simp add: v' dropped_var_def kept_var_def Let_def)
        moreover from ident v nm have "vals v = Ints1 (map int [0..<len (vals v)])"
          unfolding list_all_iff by blast
        ultimately show ?thesis by simp
      qed
    qed
    then show ?thesis unfolding list_all_iff by blast
  qed
  have wf': "wf_mesh (mesh self')"
    unfolding wf_mesh_def using d' sch' cons' co' ident' by blast
  have nd': "ds_dims (mesh self') ?at = Some (n - card (set ids))"
  proof -
    from schema_has_kind [of knd] obtain nm d where sd: "(nm, d) \<in> set schema" "?at \<in> set d"
      by auto
    from sd(1) sch' have "(nm, d) \<in> (\<lambda>(name, v). (name, dims v)) ` set (variables (mesh self'))"
      by (simp only: set_map)
    then obtain x where x: "x \<in> set (variables (mesh self'))"
      "(nm, d) = (\<lambda>(name, v). (name, dims v)) x" by (rule imageE)
    obtain a v' where ab: "x = (a, v')" by (cases x)
    with x have v': "(nm, v') \<in> set (variables (mesh self'))" "dims v' = d"
      by simp_all
    have "\<forall>(name, v)\<in>set (variables (mesh self')). shape (vals v) = map S' (dims v)"
      using sized' by auto
    from sized_ds_dims [OF this v'(1)] sd(2) v'(2) have "ds_dims (mesh self') ?at = Some (S' ?at)"
      by simp
    also have "S' ?at = n - card (set ids)"
      unfolding S'_def n'_def keep_def using count_kept [OF valid] by simp
    finally show ?thesis .
  qed
  have "perimeter_links self' = perimeter_links self" by (simp add: self'_def)
  with ok wf' l' nd' show ?thesis by blast
qed

section \<open>The mesh that the constructor builds\<close>

text \<open>When the constructor gets as far as the drops, the mesh holds the sixteen arrays
  of the schema, in the order of their assignment, and is a mesh state.\<close>

lemma derived_mesh_vars:
  assumes "derived_mesh ext q = Inr m"
  shows "consistent m \<and> coords m = mesh_coords \<and>
     (\<exists>lap fac.
       variables m =
         [(''x_of_node'', \<lparr>dims = [''node''], vals = Floats (map fst (points q))\<rparr>),
          (''y_of_node'', \<lparr>dims = [''node''], vals = Floats (map snd (points q))\<rparr>),
          (''node'', \<lparr>dims = [''node''], vals = Ints1 (map int [0..<length (points q)])\<rparr>),
          (''x_of_corner'', \<lparr>dims = [''corner''], vals = Floats (map fst (vertices q))\<rparr>),
          (''y_of_corner'', \<lparr>dims = [''corner''], vals = Floats (map snd (vertices q))\<rparr>),
          (''corner'', \<lparr>dims = [''corner''], vals = Ints1 (map int [0..<length (vertices q)])\<rparr>),
          (''nodes_at_link'', \<lparr>dims = [''link'', ''Two''], vals = Ints2 2 (ridge_points q)\<rparr>),
          (''nodes_at_patch'', \<lparr>dims = [''patch'', ''Three''], vals = Ints2 3 (simplices q)\<rparr>),
          (''corners_at_face'', \<lparr>dims = [''face'', ''Two''], vals = Ints2 2 (ridge_vertices q)\<rparr>),
          (''corners_at_cell'', \<lparr>dims = [''cell'', ''max_corners_per_cell''],
                                 vals = corners_at_cell_of (regions q)\<rparr>),
          (''n_corners_at_cell'', \<lparr>dims = [''cell''],
                                   vals = Ints1 (map (\<lambda>cell. int (length cell)) (regions q))\<rparr>),
          (''nodes_at_face'', \<lparr>dims = [''face'', ''Two''], vals = Ints2 2 (ridge_points q)\<rparr>),
          (''cell_at_node'', \<lparr>dims = [''node''], vals = Ints1 (point_region q)\<rparr>),
          (''links_at_patch'', \<lparr>dims = [''patch'', ''Three''], vals = lap\<rparr>),
          (''node_at_cell'', \<lparr>dims = [''cell''], vals = Ints1 (reverse_one_to_one (point_region q))\<rparr>),
          (''faces_at_cell'', \<lparr>dims = [''cell'', ''max_faces_per_cell''], vals = fac\<rparr>)])"
proof -
  from assms obtain mesh0 lap can mesh1 fac where
    m0: "VoronoiDelaunay_init q = Inr mesh0"
    and can: "get_ints mesh0 ''cell_at_node'' = Inr can"
    and m1: "ds_update
              [(''links_at_patch'', plain [''patch'', ''Three''] lap),
               (''node_at_cell'', plain [''cell''] (Ints1 (reverse_one_to_one can)))]
              mesh0 = Inr mesh1"
    and m: "ds_update [(''faces_at_cell'', plain [''cell'', ''max_faces_per_cell''] fac)] mesh1 = Inr m"
    unfolding derived_mesh_def ebind_Inr_iff by blast
  from m0 have mesh0: "mesh0 = \<lparr>coords = mesh_coords, variables =
         [(''x_of_node'', \<lparr>dims = [''node''], vals = Floats (map fst (points q))\<rparr>),
          (''y_of_node'', \<lparr>dims = [''node''], vals = Floats (map snd (points q))\<rparr>),
          (''node'', \<lparr>dims = [''node''], vals = Ints1 (map int [0..<length (points q)])\<rparr>),
          (''x_of_corner'', \<lparr>dims = [''corner''], vals = Floats (map fst (vertices q))\<rparr>),
          (''y_of_corner'', \<lparr>dims = [''corner''], vals = Floats (map snd (vertices q))\<rparr>),
          (''corner'', \<lparr>dims = [''corner''], vals = Ints1 (map int [0..<length (vertices q)])\<rparr>),
          (''nodes_at_link'', \<lparr>dims = [''link'', ''Two''], vals = Ints2 2 (ridge_points q)\<rparr>),
          (''nodes_at_patch'', \<lparr>dims = [''patch'', ''Three''], vals = Ints2 3 (simplices q)\<rparr>),
          (''corners_at_face'', \<lparr>dims = [''face'', ''Two''], vals = Ints2 2 (ridge_vertices q)\<rparr>),
          (''corners_at_cell'', \<lparr>dims = [''cell'', ''max_corners_per_cell''],
                                 vals = corners_at_cell_of (regions q)\<rparr>),
          (''n_corners_at_cell'', \<lparr>dims = [''cell''],
                                   vals = Ints1 (map (\<lambda>cell. int (length cell)) (regions q))\<rparr>),
          (''nodes_at_face'', \<lparr>dims = [''face'', ''Two''], vals = Ints2 2 (ridge_points q)\<rparr>),
          (''cell_at_node'', \<lparr>dims = [''node''], vals = Ints1 (point_region q)\<rparr>)]\<rparr>"
    unfolding VoronoiDelaunay_init_def ebind_Inr_iff ds_update_Inr_iff
    by (auto simp: with_xy_def plain_def mesh_coords_def)
  from can have can': "can = point_region q"
    unfolding mesh0 get_ints_def ds_get_def by simp
  from m1 have mesh1: "variables mesh1 = variables mesh0 @
         [(''links_at_patch'', \<lparr>dims = [''patch'', ''Three''], vals = lap\<rparr>),
          (''node_at_cell'', \<lparr>dims = [''cell''], vals = Ints1 (reverse_one_to_one (point_region q))\<rparr>)]"
      and c1: "coords mesh1 = mesh_coords"
    unfolding ds_update_Inr_iff can' mesh0
    by (auto simp: plain_def mesh_coords_def)
  from m have mm: "variables m = variables mesh1 @
         [(''faces_at_cell'', \<lparr>dims = [''cell'', ''max_faces_per_cell''], vals = fac\<rparr>)]"
      and c2: "coords m = mesh_coords" and cons: "consistent m"
    unfolding ds_update_Inr_iff mesh1 c1 mesh0
    by (auto simp: plain_def mesh_coords_def)
  show ?thesis
    using cons c2 unfolding mm mesh1 mesh0 by simp
qed

lemma derived_mesh_wf:
  assumes "derived_mesh ext q = Inr m"
  shows "wf_mesh m"
proof -
  from derived_mesh_vars [OF assms] obtain lap fac where
    "consistent m" "coords m = mesh_coords" and v: "variables m =
         [(''x_of_node'', \<lparr>dims = [''node''], vals = Floats (map fst (points q))\<rparr>),
          (''y_of_node'', \<lparr>dims = [''node''], vals = Floats (map snd (points q))\<rparr>),
          (''node'', \<lparr>dims = [''node''], vals = Ints1 (map int [0..<length (points q)])\<rparr>),
          (''x_of_corner'', \<lparr>dims = [''corner''], vals = Floats (map fst (vertices q))\<rparr>),
          (''y_of_corner'', \<lparr>dims = [''corner''], vals = Floats (map snd (vertices q))\<rparr>),
          (''corner'', \<lparr>dims = [''corner''], vals = Ints1 (map int [0..<length (vertices q)])\<rparr>),
          (''nodes_at_link'', \<lparr>dims = [''link'', ''Two''], vals = Ints2 2 (ridge_points q)\<rparr>),
          (''nodes_at_patch'', \<lparr>dims = [''patch'', ''Three''], vals = Ints2 3 (simplices q)\<rparr>),
          (''corners_at_face'', \<lparr>dims = [''face'', ''Two''], vals = Ints2 2 (ridge_vertices q)\<rparr>),
          (''corners_at_cell'', \<lparr>dims = [''cell'', ''max_corners_per_cell''],
                                 vals = corners_at_cell_of (regions q)\<rparr>),
          (''n_corners_at_cell'', \<lparr>dims = [''cell''],
                                   vals = Ints1 (map (\<lambda>cell. int (length cell)) (regions q))\<rparr>),
          (''nodes_at_face'', \<lparr>dims = [''face'', ''Two''], vals = Ints2 2 (ridge_points q)\<rparr>),
          (''cell_at_node'', \<lparr>dims = [''node''], vals = Ints1 (point_region q)\<rparr>),
          (''links_at_patch'', \<lparr>dims = [''patch'', ''Three''], vals = lap\<rparr>),
          (''node_at_cell'', \<lparr>dims = [''cell''], vals = Ints1 (reverse_one_to_one (point_region q))\<rparr>),
          (''faces_at_cell'', \<lparr>dims = [''cell'', ''max_faces_per_cell''], vals = fac\<rparr>)]"
    by (elim conjE exE)
  then show ?thesis
    unfolding wf_mesh_def v by (simp add: schema_def mesh_coords_def)
qed

section \<open>Mesh states are kept by the drops\<close>

text \<open>The ids that the constructor passes to \<^verbatim>\<open>drop_element\<close> come out of \<^verbatim>\<open>np.where\<close>
  or are filtered to be non-negative; \<^verbatim>\<open>drop_element\<close> raises on an id that is not
  below the count. So every drop of the constructor that returns has got valid ids,
  and leaves a mesh state.\<close>

lemma set_false_Inr_index:
  "set_false m ids = Inr keep \<Longrightarrow> i \<in> set ids \<Longrightarrow> np_index (length m) i \<noteq> None"
proof (induction ids arbitrary: m)
  case Nil
  then show ?case by simp
next
  case (Cons a ids)
  from Cons.prems(1) obtain j where j: "np_index (length m) a = Some j"
    and r: "set_false (m[j := False]) ids = Inr keep"
    by (auto split: option.splits)
  show ?case
  proof (cases "i = a")
    case True
    with j show ?thesis by simp
  next
    case False
    with Cons.prems(2) have "i \<in> set ids" by simp
    from Cons.IH [OF r this] show ?thesis by simp
  qed
qed

lemma drop_element_nonneg_valid:
  assumes ok: "drop_element ids knd self = Inr self'" and nn: "\<forall>i\<in>set ids. 0 \<le> i"
  shows "\<exists>n. ds_dims (mesh self) (kind_name knd) = Some n \<and> (\<forall>i\<in>set ids. 0 \<le> i \<and> i < int n)"
proof -
  from ok obtain n keep where n: "ds_dims (mesh self) (kind_name knd) = Some n"
    and k: "set_false (replicate n True) (sort ids) = Inr keep"
    by (rule drop_element_InrE)
  have "i < int n" if "i \<in> set ids" for i
  proof -
    from that have "i \<in> set (sort ids)" by simp
    from set_false_Inr_index [OF k this] nn that show ?thesis
      by (auto simp: np_index_def split: if_splits)
  qed
  with n nn show ?thesis by blast
qed

lemma where_true_nonneg: "\<forall>i\<in>set (where_true b). 0 \<le> i"
  by (simp add: where_true_def)

lemma unbound_corners_nonneg: "unbound_corners ext self = Inr cs \<Longrightarrow> \<forall>c\<in>set cs. 0 \<le> c"
  unfolding unbound_corners_def ebind_Inr_iff by auto

lemma drop_element_preserves:
  assumes wf: "wf_mesh (mesh self)" and ok: "drop_element ids knd self = Inr self'"
    and nn: "\<forall>i\<in>set ids. 0 \<le> i"
  shows "wf_mesh (mesh self') \<and> perimeter_links self' = perimeter_links self"
proof -
  from drop_element_nonneg_valid [OF ok nn] obtain n where
    n: "ds_dims (mesh self) (kind_name knd) = Some n" and v: "\<forall>i\<in>set ids. 0 \<le> i \<and> i < int n"
    by blast
  from drop_element_wf [OF wf n v] ok show ?thesis by auto
qed

lemma drop_corners_preserves:
  assumes wf: "wf_mesh (mesh self)" and ok: "drop_corners ids self = Inr self'"
    and nn: "\<forall>i\<in>set ids. 0 \<le> i"
  shows "wf_mesh (mesh self') \<and> perimeter_links self' = perimeter_links self"
proof -
  from ok obtain s1 caf s2 lap where
    1: "drop_element ids Corner self = Inr s1"
    and 2: "drop_element (where_true (map Not (map (list_ex (\<lambda>v. v \<noteq> - 1)) (caf :: int list list)))) Link s1 = Inr s2"
    and 3: "drop_element (where_true (map Not (map (list_all (\<lambda>v. v \<ge> 0)) (lap :: int list list)))) Patch s2 = Inr self'"
    unfolding drop_corners_def ebind_Inr_iff Let_def by (elim exE conjE) (rule that)
  from drop_element_preserves [OF wf 1 nn] have a: "wf_mesh (mesh s1)"
    and a': "perimeter_links s1 = perimeter_links self" by simp_all
  from drop_element_preserves [OF a 2 where_true_nonneg] have b: "wf_mesh (mesh s2)"
    and b': "perimeter_links s2 = perimeter_links s1" by simp_all
  from drop_element_preserves [OF b 3 where_true_nonneg] a' b' show ?thesis by simp
qed

lemma reduction_preserves:
  assumes wf: "wf_mesh (mesh self)" and ok: "reduction ext self = Inr self'"
  shows "wf_mesh (mesh self') \<and> perimeter_links self' = perimeter_links self"
proof -
  from ok obtain cs s1 b2 s2 b3 where
    0: "unbound_corners ext self = Inr cs"
    and 1: "drop_corners cs self = Inr s1"
    and 2: "drop_element (where_true b2) Face s1 = Inr s2"
    and 3: "drop_element (where_true b3) Cell s2 = Inr self'"
    unfolding reduction_def drop_perimeter_faces_def drop_perimeter_cells_def ebind_Inr_iff
    by (elim exE conjE) (rule that)
  from drop_corners_preserves [OF wf 1 unbound_corners_nonneg [OF 0]] have a: "wf_mesh (mesh s1)"
    and a': "perimeter_links s1 = perimeter_links self" by simp_all
  from drop_element_preserves [OF a 2 where_true_nonneg] have b: "wf_mesh (mesh s2)"
    and b': "perimeter_links s2 = perimeter_links s1" by simp_all
  from drop_element_preserves [OF b 3 where_true_nonneg] a' b' show ?thesis by simp
qed

lemma init_wf:
  assumes "VoronoiDelaunayToGraph_init ext q pl = Inr g"
  shows "wf_mesh (mesh g)"
proof -
  from assms obtain m self where m: "derived_mesh ext q = Inr m"
    and r: "reduction ext self = Inr g" and s: "mesh self = m"
    unfolding VoronoiDelaunayToGraph_init_def ebind_Inr_iff by force
  from derived_mesh_wf [OF m] s have "wf_mesh (mesh self)" by simp
  from reduction_preserves [OF this r] show ?thesis by simp
qed

lemma schema_identity_all:
  "list_all (\<lambda>knd. list_all (\<lambda>(name, d). name = kind_name knd
       \<longrightarrow> name \<in> set [''node'', ''corner''] \<and> d = [name]) schema)
     [Node, Corner, Link, Face, Patch, Cell]"
  by code_simp

lemma schema_identity:
  assumes "(kind_name knd, d) \<in> set schema"
  shows "kind_name knd \<in> set [''node'', ''corner''] \<and> d = [kind_name knd]"
  using all_kinds [OF schema_identity_all, of knd, unfolded list_all_iff, THEN bspec, OF assms]
  by simp

lemma wf_has_dim:
  assumes wf: "wf_mesh ds"
  shows "\<exists>n. ds_dims ds (kind_name knd) = Some n"
proof -
  from schema_has_kind [of knd] obtain name d where s: "(name, d) \<in> set schema"
    and k: "kind_name knd \<in> set d" by auto
  from wf s have "(name, d) \<in> set (map (\<lambda>(name, v). (name, dims v)) (variables ds))"
    unfolding wf_mesh_def by simp
  then obtain v where v: "(name, v) \<in> set (variables ds)" and d: "dims v = d" by auto
  from wf have c: "consistent ds" unfolding wf_mesh_def by simp
  have "\<forall>(name, v)\<in>set (variables ds). shape (vals v) = map (\<lambda>d. the (ds_dims ds d)) (dims v)"
    using consistent_sized [OF c] by auto
  from sized_ds_dims [OF this v] k d show ?thesis by blast
qed

lemma wf_contiguous:
  assumes wf: "wf_mesh ds" and n: "ds_dims ds (kind_name knd) = Some n"
  shows "contiguous ds knd n"
proof -
  have "(kind_name knd \<in> set (dims v) \<longrightarrow> hd (dims v) = kind_name knd \<and> len (vals v) = n) \<and>
        (name = kind_name knd \<longrightarrow> vals v = Ints1 (map int [0..<n]))"
    if v: "(name, v) \<in> set (variables ds)" for name v
  proof -
    from wf_var_schema [OF wf v] have s: "(name, dims v) \<in> set schema" .
    have a: "hd (dims v) = kind_name knd \<and> len (vals v) = n" if "kind_name knd \<in> set (dims v)"
      using schema_kind(2) [OF s that] wf_len [OF wf n v that] by simp
    have b: "vals v = Ints1 (map int [0..<n])" if e: "name = kind_name knd"
    proof -
      from schema_identity [of knd "dims v"] s e
      have i: "name \<in> set [''node'', ''corner'']" and d: "dims v = [kind_name knd]" by simp_all
      from wf v i have "vals v = Ints1 (map int [0..<len (vals v)])"
        unfolding wf_mesh_def list_all_iff by blast
      moreover from d have "len (vals v) = n" by (intro wf_len [OF wf n v]) simp
      ultimately show ?thesis by simp
    qed
    from a b show ?thesis by blast
  qed
  with n show ?thesis unfolding contiguous_def list_all_iff by blast
qed

lemma drop_element_rows:
  assumes wf: "wf_mesh (mesh self)"
    and v: "map_of (variables (mesh self)) name = Some var"
    and k: "kind_name knd \<in> set (dims var)" and ne: "name \<noteq> kind_name knd"
  shows "dropped_var knd ids n name var
           = var\<lparr>vals := compress_rows (map (\<lambda>j. int j \<notin> set ids) [0..<n]) (vals var)\<rparr>"
proof -
  from v have "(name, var) \<in> set (variables (mesh self))" by (rule map_of_SomeD)
  from wf_var_schema [OF wf this] have s: "(name, dims var) \<in> set schema" .
  from schema_kind(1) [OF s, of knd] k ne consider
    (suf) "suffix_search knd name"
    | (xy) "kind_name knd \<in> set mesh_coords"
           "name = ''x_of_'' @ kind_name knd \<or> name = ''y_of_'' @ kind_name knd"
    by blast
  then show ?thesis
  proof cases
    case suf
    from schema_kind(3) [OF s, of knd] suf have "\<not> prefix_search knd name" by simp
    with suf suffix_search_not_coord [OF suf] show ?thesis
      by (simp add: dropped_var_def kept_var_def)
  next
    case xy
    from schema_coords [OF xy(1)] xy(2) have "map_of schema name = Some [kind_name knd]" by auto
    with wf_lookup_schema [OF wf, of name] v have d: "dims var = [kind_name knd]" by simp
    from xy(2) prefix_search_not_coord [of knd name] have "\<not> prefix_search knd name" by blast
    with xy ne d show ?thesis
      by (auto simp: dropped_var_def kept_var_def)
  qed
qed

section \<open>The index spaces stay contiguous\<close>

text \<open>The example, through the constructor.\<close>

lemma example_reduction: "reduction example_externals example_graph = Inr example_reduced"
  by code_simp

lemma example_init:
  "VoronoiDelaunayToGraph_init example_externals example_qhull
     (Some [(0, 1), (1, 2), (2, 3), (3, 0)]) = Inr example_reduced"
  by code_simp

lemma example_graph_mesh: "mesh example_graph = example_mesh"
  by code_simp

text \<open>C1. The mesh states are the datasets that hold the arrays of the schema with
  sizes that agree and identity arrays \<^verbatim>\<open>arange(count)\<close> (\<open>wf_mesh\<close>); the constructor
  builds one before it drops anything. For every mesh state, every kind with \<open>n\<close>
  elements and all ids within \<open>0..n-1\<close>, \<^verbatim>\<open>drop_element(ids, kind)\<close> returns and leaves
  a mesh state in which the index space of the kind is contiguous,
  \<open>0..n - |ids| - 1\<close> with no gaps: the dimension has the new size, every array of
  the kind has one row for each index, the identity array is \<^verbatim>\<open>arange\<close> of the new
  count, and every other array of the kind holds the kept rows of before, in their
  order. So whenever the constructor returns, the index space of every kind is
  exactly \<open>0..count-1\<close>.\<close>

theorem drop_element_contiguous:
  "(derived_mesh ext q = Inr m \<longrightarrow> wf_mesh m)
   \<and> (wf_mesh (mesh self) \<and> ds_dims (mesh self) (kind_name knd) = Some n
        \<and> (\<forall>i\<in>set ids. 0 \<le> i \<and> i < int n)
      \<longrightarrow> (\<exists>self'. drop_element ids knd self = Inr self'
             \<and> wf_mesh (mesh self')
             \<and> contiguous (mesh self') knd (n - card (set ids))
             \<and> (\<forall>name var. map_of (variables (mesh self)) name = Some var
                     \<and> kind_name knd \<in> set (dims var) \<and> name \<noteq> kind_name knd
                  \<longrightarrow> map_of (variables (mesh self')) name
                        = Some (var\<lparr>vals := compress_rows (map (\<lambda>j. int j \<notin> set ids) [0..<n])
                                                 (vals var)\<rparr>))))
   \<and> (VoronoiDelaunayToGraph_init ext q pl = Inr g
      \<longrightarrow> wf_mesh (mesh g) \<and> (\<forall>knd. \<exists>n. contiguous (mesh g) knd n))"
proof (intro conjI impI)
  assume "derived_mesh ext q = Inr m"
  then show "wf_mesh m" by (rule derived_mesh_wf)
next
  assume a: "wf_mesh (mesh self) \<and> ds_dims (mesh self) (kind_name knd) = Some n
        \<and> (\<forall>i\<in>set ids. 0 \<le> i \<and> i < int n)"
  then have wf: "wf_mesh (mesh self)" and n: "ds_dims (mesh self) (kind_name knd) = Some n"
    and v: "\<forall>i\<in>set ids. 0 \<le> i \<and> i < int n" by simp_all
  from drop_element_wf [OF wf n v] obtain self' where
    ok: "drop_element ids knd self = Inr self'" and wf': "wf_mesh (mesh self')"
    and look: "\<And>name. map_of (variables (mesh self')) name
                 = map_option (dropped_var knd ids n name) (map_of (variables (mesh self)) name)"
    and n': "ds_dims (mesh self') (kind_name knd) = Some (n - card (set ids))"
    by blast
  have "map_of (variables (mesh self')) name
          = Some (var\<lparr>vals := compress_rows (map (\<lambda>j. int j \<notin> set ids) [0..<n]) (vals var)\<rparr>)"
    if "map_of (variables (mesh self)) name = Some var \<and> kind_name knd \<in> set (dims var)
          \<and> name \<noteq> kind_name knd" for name var
    using that look [of name] drop_element_rows [OF wf, of name var knd ids n] by simp
  with ok wf' wf_contiguous [OF wf' n']
  show "\<exists>self'. drop_element ids knd self = Inr self'
             \<and> wf_mesh (mesh self')
             \<and> contiguous (mesh self') knd (n - card (set ids))
             \<and> (\<forall>name var. map_of (variables (mesh self)) name = Some var
                     \<and> kind_name knd \<in> set (dims var) \<and> name \<noteq> kind_name knd
                  \<longrightarrow> map_of (variables (mesh self')) name
                        = Some (var\<lparr>vals := compress_rows (map (\<lambda>j. int j \<notin> set ids) [0..<n])
                                                 (vals var)\<rparr>))"
    by blast
next
  assume "VoronoiDelaunayToGraph_init ext q pl = Inr g"
  then show "wf_mesh (mesh g)" by (rule init_wf)
next
  assume "VoronoiDelaunayToGraph_init ext q pl = Inr g"
  then have wf: "wf_mesh (mesh g)" by (rule init_wf)
  show "\<forall>knd. \<exists>n. contiguous (mesh g) knd n"
  proof
    fix knd
    from wf_has_dim [OF wf, of knd] obtain n where "ds_dims (mesh g) (kind_name knd) = Some n" ..
    from wf_contiguous [OF wf this] show "\<exists>n. contiguous (mesh g) knd n" ..
  qed
qed

theorem drop_element_contiguous_witness:
  "derived_mesh example_externals example_qhull = Inr example_mesh
   \<and> wf_mesh example_mesh
   \<and> ds_dims (mesh example_graph) (kind_name Corner) = Some 4
   \<and> list_all (\<lambda>i. 0 \<le> i \<and> i < int 4) [1, 3]
   \<and> (\<exists>self'. drop_element [1, 3] Corner example_graph = Inr self'
          \<and> wf_mesh (mesh self')
          \<and> contiguous (mesh self') Corner 2
          \<and> map_of (variables (mesh self')) ''x_of_corner''
               = Some \<lparr>dims = [''corner''], vals = Floats [1, 1]\<rparr>
          \<and> map_of (variables (mesh self')) ''corner''
               = Some \<lparr>dims = [''corner''], vals = Ints1 [0, 1]\<rparr>)
   \<and> VoronoiDelaunayToGraph_init example_externals example_qhull
        (Some [(0, 1), (1, 2), (2, 3), (3, 0)]) = Inr example_reduced
   \<and> wf_mesh (mesh example_reduced)
   \<and> list_all (\<lambda>knd. \<exists>n. contiguous (mesh example_reduced) knd n)
        [Node, Corner, Link, Face, Patch, Cell]"
proof -
  note t = drop_element_contiguous [of example_externals example_qhull example_mesh
      example_graph Corner 4 "[1, 3]" "Some [(0, 1), (1, 2), (2, 3), (3, 0)]" example_reduced]
  have d: "derived_mesh example_externals example_qhull = Inr example_mesh"
    by (rule example_mesh_derived)
  have i: "VoronoiDelaunayToGraph_init example_externals example_qhull
             (Some [(0, 1), (1, 2), (2, 3), (3, 0)]) = Inr example_reduced"
    by (rule example_init)
  have n: "ds_dims (mesh example_graph) (kind_name Corner) = Some 4" by code_simp
  have v: "\<forall>i\<in>set [1, 3]. 0 \<le> i \<and> i < int 4" by simp
  have x: "map_of (variables (mesh example_graph)) ''x_of_corner''
             = Some \<lparr>dims = [''corner''], vals = Floats [1, 2, 1, 0]\<rparr>
           \<and> kind_name Corner \<in> set (dims \<lparr>dims = [''corner''], vals = Floats [1, 2, 1, 0]\<rparr>)
           \<and> ''x_of_corner'' \<noteq> kind_name Corner"
    by code_simp
  from t d have wf0: "wf_mesh example_mesh" by blast
  then have wf: "wf_mesh (mesh example_graph)" by (simp only: example_graph_mesh)
  from t wf n v obtain self' where ok: "drop_element [1, 3] Corner example_graph = Inr self'"
    and wf': "wf_mesh (mesh self')"
    and c: "contiguous (mesh self') Corner (4 - card (set [1, 3 :: int]))"
    and rows: "\<And>name var. map_of (variables (mesh example_graph)) name = Some var
                     \<and> kind_name Corner \<in> set (dims var) \<and> name \<noteq> kind_name Corner
                  \<Longrightarrow> map_of (variables (mesh self')) name
                        = Some (var\<lparr>vals := compress_rows (map (\<lambda>j. int j \<notin> set [1, 3]) [0..<4])
                                                 (vals var)\<rparr>)"
    by blast
  have k: "4 - card (set [1, 3 :: int]) = 2" by simp
  from c have c': "contiguous (mesh self') Corner 2" by (simp only: k)
  have u: "[0..<4] = [0, 1, 2, 3]" by (simp add: upt_conv_Cons)
  from rows [OF x] have xs: "map_of (variables (mesh self')) ''x_of_corner''
               = Some \<lparr>dims = [''corner''], vals = Floats [1, 1]\<rparr>"
    by (simp add: u compress_def)
  from c' have "\<forall>(name, var)\<in>set (variables (mesh self')).
                  name = ''corner'' \<longrightarrow> vals var = Ints1 (map int [0..<2])"
    unfolding contiguous_def list_all_iff by auto
  have "\<exists>var. map_of (variables (mesh self')) ''corner'' = Some var \<and> dims var = [''corner'']"
    by (rule wf_schema_var [OF wf']) code_simp
  then obtain var where cv: "map_of (variables (mesh self')) ''corner'' = Some var"
    and cd: "dims var = [''corner'']" by blast
  from cv have "(''corner'', var) \<in> set (variables (mesh self'))" by (rule map_of_SomeD)
  with c' have "vals var = Ints1 (map int [0..<2])"
    unfolding contiguous_def list_all_iff by auto
  then have "vals var = Ints1 [0, 1]" by (simp add: upt_conv_Cons)
  with cd have "var = \<lparr>dims = [''corner''], vals = Ints1 [0, 1]\<rparr>" by (cases var) simp
  with cv have cs: "map_of (variables (mesh self')) ''corner''
               = Some \<lparr>dims = [''corner''], vals = Ints1 [0, 1]\<rparr>" by simp
  from t i have wfr: "wf_mesh (mesh example_reduced)"
    and all: "\<forall>knd. \<exists>n. contiguous (mesh example_reduced) knd n" by blast+
  from all have l: "list_all (\<lambda>knd. \<exists>n. contiguous (mesh example_reduced) knd n)
        [Node, Corner, Link, Face, Patch, Cell]" by simp
  have v': "list_all (\<lambda>i. 0 \<le> i \<and> i < int 4) [1, 3]" by simp
  from d wf0 n v' ok wf' c' xs cs i wfr l show ?thesis by blast
qed

section \<open>The cascade of \<^verbatim>\<open>drop_corners\<close>\<close>

text \<open>What a drop of one kind leaves alone: the arrays that neither pattern selects,
  and the sizes of the other kinds.\<close>

lemma kind_name_inj: "kind_name a = kind_name b \<Longrightarrow> a = b"
  by (cases a; cases b) simp_all

lemma dropped_var_other:
  assumes "\<not> suffix_search knd name" "name \<noteq> kind_name knd"
    "name \<noteq> ''x_of_'' @ kind_name knd" "name \<noteq> ''y_of_'' @ kind_name knd"
  shows "dropped_var knd ids n name var =
           (if prefix_search knd name
            then var\<lparr>vals := map_entries (renumber (sort ids)) (renumber (sort ids)) (vals var)\<rparr>
            else var)"
  using assms by (simp add: dropped_var_def kept_var_def)

lemma wf_ints2:
  assumes wf: "wf_mesh ds" and s: "map_of schema name = Some [d1, d2]"
  shows "\<exists>w rows. map_of (variables ds) name = Some \<lparr>dims = [d1, d2], vals = Ints2 w rows\<rparr>
           \<and> get_ints2 ds name = Inr rows"
proof -
  from wf_schema_var [OF wf s] obtain v where v: "map_of (variables ds) name = Some v"
    and d: "dims v = [d1, d2]" by blast
  from v have m: "(name, v) \<in> set (variables ds)" by (rule map_of_SomeD)
  from wf have "consistent ds" by (simp add: wf_mesh_def)
  with m have "length (dims v) = length (shape (vals v))"
    unfolding consistent_def list_all_iff by blast
  with d obtain w rows where a: "vals v = Ints2 w rows" by (cases "vals v") simp_all
  with d have "v = \<lparr>dims = [d1, d2], vals = Ints2 w rows\<rparr>" by (cases v) simp
  with v show ?thesis by (auto simp: get_ints2_def ds_get_def)
qed

lemma wf_ints2_len:
  assumes wf: "wf_mesh ds" and v: "map_of (variables ds) name = Some \<lparr>dims = d, vals = Ints2 w rows\<rparr>"
    and k: "kind_name knd \<in> set d" and n: "ds_dims ds (kind_name knd) = Some n"
  shows "length rows = n"
proof -
  from v have "(name, \<lparr>dims = d, vals = Ints2 w rows\<rparr>) \<in> set (variables ds)" by (rule map_of_SomeD)
  from wf_len [OF wf n this] k show ?thesis by simp
qed

lemma drop_element_other_dim:
  assumes wf: "wf_mesh (mesh self)" and wf': "wf_mesh (mesh self')"
    and look: "\<forall>name. map_of (variables (mesh self')) name
                  = map_option (dropped_var knd ids n name) (map_of (variables (mesh self)) name)"
    and ne: "knd' \<noteq> knd"
  shows "ds_dims (mesh self') (kind_name knd') = ds_dims (mesh self) (kind_name knd')"
proof -
  from schema_has_kind [of knd'] obtain name d where s: "(name, d) \<in> set schema"
    and k: "kind_name knd' \<in> set d" by auto
  from s distinct_schema have "map_of schema name = Some d" by simp
  from wf_schema_var [OF wf this] obtain v where v: "map_of (variables (mesh self)) name = Some v"
    and d: "dims v = d" by blast
  have nk: "kind_name knd \<notin> set d"
  proof
    assume "kind_name knd \<in> set d"
    from schema_kind(2) [OF s this] schema_kind(2) [OF s k] have "kind_name knd = kind_name knd'"
      by simp
    with ne show False by (auto dest: kind_name_inj)
  qed
  with schema_kind(1) [OF s, of knd] have ns: "\<not> suffix_search knd name"
    and nc: "\<not> (kind_name knd \<in> set mesh_coords \<and>
          (name = kind_name knd \<or> name = ''x_of_'' @ kind_name knd \<or> name = ''y_of_'' @ kind_name knd))"
    by blast+
  from ns nc have kv: "kept_var knd keep (kind_name knd \<in> set mesh_coords) name v = v" for keep
    by (auto simp: kept_var_def)
  have dv: "dims (dropped_var knd ids n name v) = dims v"
    and lv: "len (vals (dropped_var knd ids n name v)) = len (vals v)"
    by (simp_all add: dropped_var_def kv len_map_entries)
  from look v have v': "map_of (variables (mesh self')) name = Some (dropped_var knd ids n name v)"
    by simp
  from wf_has_dim [OF wf, of knd'] obtain a where a: "ds_dims (mesh self) (kind_name knd') = Some a" ..
  from wf_has_dim [OF wf', of knd'] obtain b where b: "ds_dims (mesh self') (kind_name knd') = Some b" ..
  from wf_len [OF wf a map_of_SomeD [OF v]] k d have "len (vals v) = a" by simp
  moreover from wf_len [OF wf' b map_of_SomeD [OF v']] k d dv
  have "len (vals (dropped_var knd ids n name v)) = b" by simp
  ultimately show ?thesis using a b lv by simp
qed


lemma where_true_filter:
  "where_true (map P xs) = map int (filter (\<lambda>i. P (xs ! i)) [0..<length xs])"
proof -
  have "filter (\<lambda>i. map P xs ! i) [0..<length xs] = filter (\<lambda>i. P (xs ! i)) [0..<length xs]"
    by (rule filter_cong) simp_all
  then show ?thesis by (simp add: where_true_def)
qed

lemma card_where_true: "card (set (where_true b)) = length (filter (\<lambda>i. b ! i) [0..<length b])"
proof -
  have "distinct (where_true b)"
    unfolding where_true_def by (simp add: distinct_map inj_on_def)
  then have "card (set (where_true b)) = length (where_true b)" by (rule distinct_card)
  then show ?thesis by (simp add: where_true_def)
qed

lemma cascade_names:
  "map_of schema ''corners_at_face'' = Some [''face'', ''Two'']
   \<and> map_of schema ''links_at_patch'' = Some [''patch'', ''Three'']
   \<and> list_all (\<lambda>knd. \<not> suffix_search knd ''corners_at_face'' \<and> \<not> prefix_search knd ''corners_at_face''
        \<and> ''corners_at_face'' \<noteq> kind_name knd \<and> ''corners_at_face'' \<noteq> ''x_of_'' @ kind_name knd
        \<and> ''corners_at_face'' \<noteq> ''y_of_'' @ kind_name knd) [Link, Patch]"
  by code_simp

lemma drop_element_keeps_corners_at_face:
  assumes look: "\<forall>name. map_of (variables (mesh self')) name
                  = map_option (dropped_var knd ids n name) (map_of (variables (mesh self)) name)"
    and k: "knd = Link \<or> knd = Patch"
  shows "get_ints2 (mesh self') ''corners_at_face'' = get_ints2 (mesh self) ''corners_at_face''"
proof -
  from k cascade_names have "\<not> suffix_search knd ''corners_at_face''"
    "\<not> prefix_search knd ''corners_at_face''"
    "''corners_at_face'' \<noteq> kind_name knd" "''corners_at_face'' \<noteq> ''x_of_'' @ kind_name knd"
    "''corners_at_face'' \<noteq> ''y_of_'' @ kind_name knd"
    by auto
  then have "dropped_var knd ids n ''corners_at_face'' var = var" for var
    by (simp add: dropped_var_other)
  with look have "map_of (variables (mesh self')) ''corners_at_face''
                  = map_of (variables (mesh self)) ''corners_at_face''"
    by (cases "map_of (variables (mesh self)) ''corners_at_face''") simp_all
  then show ?thesis by (simp add: get_ints2_def ds_get_def)
qed

text \<open>C5 (amended). As worded the claim does not hold: \<^verbatim>\<open>drop_corners\<close> never drops a
  face. The rows of \<^verbatim>\<open>corners_at_face\<close> left with no valid corner select the \<^emph>\<open>links\<close> of
  the same indices, which are dropped; the face arrays keep all their rows, the
  all-sentinel ones too; and where there are more faces than links the index of such a
  row can be past the last link, and \<^verbatim>\<open>drop_corners\<close> raises (see
  \<open>drop_corners_counterexample\<close> below). Amended: for every mesh state with at least as
  many links as faces (they are as many when \<^verbatim>\<open>__init__\<close> calls it) and all ids among
  the corners, \<^verbatim>\<open>drop_corners(ids)\<close> returns; it removes those corners, then every link
  whose index is that of a face left with every corner slot the sentinel, while every
  face stays, and then every patch left with a negative link reference.\<close>

theorem drop_corners_cascade:
  assumes wf: "wf_mesh (mesh self)"
    and nc: "ds_dims (mesh self) ''corner'' = Some nc"
    and valid: "\<forall>i\<in>set ids. 0 \<le> i \<and> i < int nc"
    and nf: "ds_dims (mesh self) ''face'' = Some nf"
    and nl: "ds_dims (mesh self) ''link'' = Some nl"
    and le: "nf \<le> nl"
  shows "\<exists>s1 caf s2 lap self'.
      drop_element ids Corner self = Inr s1
    \<and> get_ints2 (mesh s1) ''corners_at_face'' = Inr caf \<and> length caf = nf
    \<and> drop_element (map int (filter (\<lambda>f. list_all (\<lambda>c. c = - 1) (caf ! f)) [0..<nf])) Link s1
        = Inr s2
    \<and> get_ints2 (mesh s2) ''links_at_patch'' = Inr lap
    \<and> drop_element (map int (filter (\<lambda>p. list_ex (\<lambda>l. l < 0) (lap ! p)) [0..<length lap])) Patch s2
        = Inr self'
    \<and> drop_corners ids self = Inr self'
    \<and> wf_mesh (mesh self')
    \<and> ds_dims (mesh self') ''corner'' = Some (nc - card (set ids))
    \<and> ds_dims (mesh self') ''face'' = Some nf
    \<and> get_ints2 (mesh self') ''corners_at_face'' = Inr caf
    \<and> ds_dims (mesh self') ''link''
        = Some (nl - length (filter (\<lambda>f. list_all (\<lambda>c. c = - 1) (caf ! f)) [0..<nf]))
    \<and> ds_dims (mesh self') ''patch''
        = Some (length lap - length (filter (\<lambda>p. list_ex (\<lambda>l. l < 0) (lap ! p)) [0..<length lap]))"
proof -
  from nc have nc': "ds_dims (mesh self) (kind_name Corner) = Some nc" by simp
  from drop_element_wf [OF wf nc' valid] obtain s1 where
    1: "drop_element ids Corner self = Inr s1" and wf1: "wf_mesh (mesh s1)"
    and look1: "\<forall>name. map_of (variables (mesh s1)) name
                  = map_option (dropped_var Corner ids nc name) (map_of (variables (mesh self)) name)"
    and nc1: "ds_dims (mesh s1) (kind_name Corner) = Some (nc - card (set ids))"
    by blast
  from drop_element_other_dim [OF wf wf1 look1, of Face] nf
  have nf1: "ds_dims (mesh s1) (kind_name Face) = Some nf" by simp
  from drop_element_other_dim [OF wf wf1 look1, of Link] nl
  have nl1: "ds_dims (mesh s1) (kind_name Link) = Some nl" by simp
  from cascade_names have sc: "map_of schema ''corners_at_face'' = Some [''face'', ''Two'']"
    and sl: "map_of schema ''links_at_patch'' = Some [''patch'', ''Three'']" by simp_all
  from wf_ints2 [OF wf1 sc] obtain w caf where
    v1: "map_of (variables (mesh s1)) ''corners_at_face''
           = Some \<lparr>dims = [''face'', ''Two''], vals = Ints2 w caf\<rparr>"
    and g1: "get_ints2 (mesh s1) ''corners_at_face'' = Inr caf" by blast
  from wf_ints2_len [OF wf1 v1 _ nf1] have lc: "length caf = nf" by simp
  define bad_l where "bad_l = filter (\<lambda>f. list_all (\<lambda>c. c = - 1) (caf ! f)) [0..<nf]"
  have wl: "where_true (map Not (map (list_ex (\<lambda>v. v \<noteq> - 1)) caf)) = map int bad_l"
  proof -
    have "map Not (map (list_ex (\<lambda>v. v \<noteq> - 1)) caf) = map (list_all (\<lambda>c. c = - 1)) caf"
      by (simp add: list_ex_iff list_all_iff)
    then show ?thesis by (simp only: where_true_filter bad_l_def lc)
  qed
  have vl: "\<forall>i\<in>set (map int bad_l). 0 \<le> i \<and> i < int nl"
    using le by (auto simp: bad_l_def)
  have cl: "card (set (map int bad_l)) = length bad_l"
  proof -
    have "distinct (map int bad_l)" by (simp add: distinct_map bad_l_def inj_on_def)
    from distinct_card [OF this] show ?thesis by (simp only: length_map)
  qed
  from drop_element_wf [OF wf1 nl1 vl] obtain s2 where
    2: "drop_element (map int bad_l) Link s1 = Inr s2" and wf2: "wf_mesh (mesh s2)"
    and look2: "\<forall>name. map_of (variables (mesh s2)) name
                  = map_option (dropped_var Link (map int bad_l) nl name) (map_of (variables (mesh s1)) name)"
    and nl2: "ds_dims (mesh s2) (kind_name Link) = Some (nl - length bad_l)"
    unfolding cl by blast
  from drop_element_other_dim [OF wf1 wf2 look2, of Face] nf1
  have nf2: "ds_dims (mesh s2) (kind_name Face) = Some nf" by simp
  from drop_element_other_dim [OF wf1 wf2 look2, of Corner] nc1
  have nc2: "ds_dims (mesh s2) (kind_name Corner) = Some (nc - card (set ids))" by simp
  from drop_element_keeps_corners_at_face [OF look2] g1
  have g2: "get_ints2 (mesh s2) ''corners_at_face'' = Inr caf" by simp
  from wf_ints2 [OF wf2 sl] obtain w' lap where
    v2: "map_of (variables (mesh s2)) ''links_at_patch''
           = Some \<lparr>dims = [''patch'', ''Three''], vals = Ints2 w' lap\<rparr>"
    and gl: "get_ints2 (mesh s2) ''links_at_patch'' = Inr lap" by blast
  from wf_has_dim [OF wf2, of Patch] obtain np where np: "ds_dims (mesh s2) (kind_name Patch) = Some np" ..
  from wf_ints2_len [OF wf2 v2 _ np] have lp: "length lap = np" by simp
  define bad_p where "bad_p = filter (\<lambda>p. list_ex (\<lambda>l. l < 0) (lap ! p)) [0..<length lap]"
  have wp: "where_true (map Not (map (list_all (\<lambda>v. v \<ge> 0)) lap)) = map int bad_p"
  proof -
    have "map Not (map (list_all (\<lambda>v. v \<ge> 0)) lap) = map (list_ex (\<lambda>l. l < 0)) lap"
      by (simp add: list_ex_iff list_all_iff not_le)
    then show ?thesis by (simp only: where_true_filter bad_p_def)
  qed
  have vp: "\<forall>i\<in>set (map int bad_p). 0 \<le> i \<and> i < int np"
    using lp by (auto simp: bad_p_def)
  have cp: "card (set (map int bad_p)) = length bad_p"
  proof -
    have "distinct (map int bad_p)" by (simp add: distinct_map bad_p_def inj_on_def)
    from distinct_card [OF this] show ?thesis by (simp only: length_map)
  qed
  from drop_element_wf [OF wf2 np vp] obtain s3 where
    3: "drop_element (map int bad_p) Patch s2 = Inr s3" and wf3: "wf_mesh (mesh s3)"
    and look3: "\<forall>name. map_of (variables (mesh s3)) name
                  = map_option (dropped_var Patch (map int bad_p) np name) (map_of (variables (mesh s2)) name)"
    and np3: "ds_dims (mesh s3) (kind_name Patch) = Some (np - length bad_p)"
    unfolding cp by blast
  from drop_element_other_dim [OF wf2 wf3 look3, of Face] nf2
  have nf3: "ds_dims (mesh s3) ''face'' = Some nf" by simp
  from drop_element_other_dim [OF wf2 wf3 look3, of Corner] nc2
  have nc3: "ds_dims (mesh s3) ''corner'' = Some (nc - card (set ids))" by simp
  from drop_element_other_dim [OF wf2 wf3 look3, of Link] nl2
  have nl3: "ds_dims (mesh s3) ''link'' = Some (nl - length bad_l)" by simp
  from np3 lp have np3': "ds_dims (mesh s3) ''patch'' = Some (length lap - length bad_p)" by simp
  from drop_element_keeps_corners_at_face [OF look3] g2
  have g3: "get_ints2 (mesh s3) ''corners_at_face'' = Inr caf" by simp
  have dc: "drop_corners ids self = Inr s3"
    unfolding drop_corners_def Let_def by (simp only: 1 g1 wl 2 gl wp 3 ebind_Inr)
  from 1 g1 lc 2 gl 3 dc wf3 nc3 nf3 g3 nl3 np3'
  show ?thesis unfolding bad_l_def bad_p_def by blast
qed

theorem drop_corners_cascade_witness:
  "wf_mesh (mesh example_graph)
   \<and> ds_dims (mesh example_graph) ''corner'' = Some 4
   \<and> list_all (\<lambda>i. 0 \<le> i \<and> i < int 4) [3]
   \<and> ds_dims (mesh example_graph) ''face'' = Some 8
   \<and> ds_dims (mesh example_graph) ''link'' = Some 8
   \<and> (\<exists>s1 caf s2 lap self'.
      drop_element [3] Corner example_graph = Inr s1
    \<and> get_ints2 (mesh s1) ''corners_at_face'' = Inr caf \<and> length caf = 8
    \<and> drop_element (map int (filter (\<lambda>f. list_all (\<lambda>c. c = - 1) (caf ! f)) [0..<8])) Link s1
        = Inr s2
    \<and> get_ints2 (mesh s2) ''links_at_patch'' = Inr lap
    \<and> drop_element (map int (filter (\<lambda>p. list_ex (\<lambda>l. l < 0) (lap ! p)) [0..<length lap])) Patch s2
        = Inr self'
    \<and> drop_corners [3] example_graph = Inr self'
    \<and> wf_mesh (mesh self')
    \<and> ds_dims (mesh self') ''corner'' = Some (4 - card (set [3 :: int]))
    \<and> ds_dims (mesh self') ''face'' = Some 8
    \<and> get_ints2 (mesh self') ''corners_at_face'' = Inr caf
    \<and> ds_dims (mesh self') ''link''
        = Some (8 - length (filter (\<lambda>f. list_all (\<lambda>c. c = - 1) (caf ! f)) [0..<8]))
    \<and> ds_dims (mesh self') ''patch''
        = Some (length lap - length (filter (\<lambda>p. list_ex (\<lambda>l. l < 0) (lap ! p)) [0..<length lap])))"
proof -
  have wf: "wf_mesh (mesh example_graph)" by (simp only: example_graph_mesh wf_example)
  have nc: "ds_dims (mesh example_graph) ''corner'' = Some 4" by code_simp
  have v: "\<forall>i\<in>set [3]. 0 \<le> i \<and> i < int 4" by simp
  have v': "list_all (\<lambda>i. 0 \<le> i \<and> i < int 4) [3]" by simp
  have nf: "ds_dims (mesh example_graph) ''face'' = Some 8" by code_simp
  have nl: "ds_dims (mesh example_graph) ''link'' = Some 8" by code_simp
  have le: "(8 :: nat) \<le> 8" by simp
  from wf nc v' nf nl drop_corners_cascade [OF wf nc v nf nl le] show ?thesis
    by (intro conjI)
qed

text \<open>Counterexample to C5 as worded. In the example, dropping corner 3 leaves face 3
  with both corners the sentinel. \<^verbatim>\<open>drop_corners([3])\<close> keeps that face: \<^verbatim>\<open>corners_at_face\<close>
  and \<^verbatim>\<open>nodes_at_face\<close> still have their eight rows, row 3 of the former being
  \<open>[-1, -1]\<close>. It is link 3 that goes, \<^verbatim>\<open>nodes_at_link\<close> being left with seven rows. On
  the graph so obtained, of eight faces and seven links, \<^verbatim>\<open>drop_corners([2])\<close> leaves
  face 7 with no corner, and raises IndexError for there is no link 7.\<close>

theorem drop_corners_counterexample:
  "get_ints2 (mesh example_graph) ''corners_at_face''
     = Inr [[- 1, 0], [- 1, 1], [- 1, 2], [- 1, 3], [0, 3], [0, 1], [1, 2], [2, 3]]
   \<and> drop_corners [3] example_graph = Inr example_without_corner
   \<and> get_ints2 (mesh example_without_corner) ''corners_at_face''
     = Inr [[- 1, 0], [- 1, 1], [- 1, 2], [- 1, - 1], [0, - 1], [0, 1], [1, 2], [2, - 1]]
   \<and> get_ints2 (mesh example_without_corner) ''nodes_at_face''
     = Inr [[0, 1], [1, 2], [2, 3], [3, 0], [0, 4], [1, 4], [2, 4], [3, 4]]
   \<and> ds_dims (mesh example_without_corner) ''face'' = Some 8
   \<and> get_ints2 (mesh example_without_corner) ''nodes_at_link''
     = Inr [[0, 1], [1, 2], [2, 3], [0, 4], [1, 4], [2, 4], [3, 4]]
   \<and> ds_dims (mesh example_without_corner) ''link'' = Some 7
   \<and> drop_corners [2] example_without_corner = Inl IndexError"
  by code_simp

section \<open>Nodes and cells\<close>






















end
